theory Spec2Isabelle
  imports Complex_Main "HOL-Library.Char_ord" "HOL-Library.List_Lexorder"
begin

unbundle bit_operations_syntax

section \<open>Python values and errors\<close>

text \<open>
  The two programs are Python 2 scripts. Integers are unbounded (\<open>int\<close>), \<open>/\<close> on two
  integers is floor division (\<open>div\<close> on \<open>int\<close> rounds the same way), and every raise is
  a value of \<open>py_error\<close>. A Python float is modelled by the rational it is meant to be:
  rounding is not part of the model.
\<close>

datatype py_error = KeyError | TypeError | ZeroDivisionError

datatype pyval = VInt int | VFloat rat | VStr string

section \<open>RangeMatch (bam_stats.py, lines 79-118)\<close>

text \<open>An interval is the tuple \<open>(start, end, strand)\<close> that \<open>add_range\<close> stores.\<close>

type_synonym interval = "int \<times> int \<times> string"

record RangeMatch =
  ranges :: "string \<rightharpoonup> (int \<rightharpoonup> interval list)"
  name :: string

definition RangeMatch_init :: "string \<Rightarrow> RangeMatch" where
  "RangeMatch_init nm = \<lparr>ranges = Map.empty, name = nm\<rparr>"

text \<open>
  \<open>if not bin in d: d[bin] = []\<close> followed by \<open>d[bin].insert(0, iv)\<close>.
\<close>

definition bucket_insert :: "(int \<rightharpoonup> interval list) \<Rightarrow> int \<Rightarrow> interval \<Rightarrow> (int \<rightharpoonup> interval list)" where
  "bucket_insert d b iv =
     (case d b of None \<Rightarrow> d(b \<mapsto> [iv]) | Some l \<Rightarrow> d(b \<mapsto> iv # l))"

text \<open>
  \<open>xrange(bin + 1, (end / 100000) + 1)\<close> is the list \<open>[bin + 1 .. end div 100000]\<close>.
\<close>

definition add_range :: "RangeMatch \<Rightarrow> string \<Rightarrow> string \<Rightarrow> int \<Rightarrow> int \<Rightarrow> RangeMatch" where
  "add_range rm chrom strand start endp =
     (let d0 = (case ranges rm chrom of None \<Rightarrow> Map.empty | Some d \<Rightarrow> d);
          bin = start div 100000;
          d1 = bucket_insert d0 bin (start, endp, strand);
          d2 = (if endp div 100000 \<noteq> bin
                then fold (\<lambda>b d. bucket_insert d b (start, endp, strand))
                          [bin + 1 .. endp div 100000] d1
                else d1)
      in rm\<lparr>ranges := (ranges rm)(chrom \<mapsto> d2)\<rparr>)"

text \<open>
  The \<open>for\<close> loop of \<open>get_tag\<close> over one bucket, with the flag \<open>rev_match\<close> as an
  argument; the empty list is the code after the loop.
\<close>

fun scan_bucket :: "string \<Rightarrow> string \<Rightarrow> int \<Rightarrow> bool \<Rightarrow> bool \<Rightarrow> interval list \<Rightarrow> string option" where
  "scan_bucket nm strand p ignore_strand rev_match [] =
     (if rev_match then Some (nm @ ''-rev'') else None)"
| "scan_bucket nm strand p ignore_strand rev_match ((start, endp, r_strand) # rest) =
     (if p \<ge> start \<and> p \<le> endp then
        (if ignore_strand \<or> strand = r_strand then Some nm
         else scan_bucket nm strand p ignore_strand True rest)
      else scan_bucket nm strand p ignore_strand rev_match rest)"

definition get_tag :: "RangeMatch \<Rightarrow> string \<Rightarrow> string \<Rightarrow> int \<Rightarrow> bool \<Rightarrow> string option" where
  "get_tag rm chrom strand p ignore_strand =
     (case ranges rm chrom of
        None \<Rightarrow> None
      | Some d \<Rightarrow>
          (case d (p div 100000) of
             None \<Rightarrow> None
           | Some l \<Rightarrow> scan_bucket (name rm) strand p ignore_strand False l))"

text \<open>
  An index as a run of the program builds it: \<open>RangeMatch(nm)\<close>, then one \<open>add_range\<close>
  call per element \<open>(chrom, strand, start, end)\<close> of the list, in order.
\<close>

definition add_ranges :: "RangeMatch \<Rightarrow> (string \<times> string \<times> int \<times> int) list \<Rightarrow> RangeMatch" where
  "add_ranges rm calls = foldl (\<lambda>r (c, st, s, e). add_range r c st s e) rm calls"

text \<open>The list a bucket holds; a missing chromosome or bucket holds nothing.\<close>

definition bucket_of :: "RangeMatch \<Rightarrow> string \<Rightarrow> int \<Rightarrow> interval list" where
  "bucket_of rm chrom b =
     (case ranges rm chrom of
        None \<Rightarrow> []
      | Some d \<Rightarrow> (case d b of None \<Rightarrow> [] | Some l \<Rightarrow> l))"

text \<open>The buckets \<open>add_range\<close> writes for an interval from \<open>s\<close> to \<open>e\<close>.\<close>

definition in_span :: "int \<Rightarrow> int \<Rightarrow> int \<Rightarrow> bool" where
  "in_span s e b \<longleftrightarrow> b = s div 100000 \<or> (s div 100000 < b \<and> b \<le> e div 100000)"

text \<open>The test \<open>pos >= start and pos <= end\<close> of \<open>get_tag\<close>, on a stored tuple.\<close>

definition covers :: "int \<Rightarrow> interval \<Rightarrow> bool" where
  "covers p iv \<longleftrightarrow> fst iv \<le> p \<and> p \<le> fst (snd iv)"

section \<open>Alignment records\<close>

text \<open>
  The attributes of a pysam read that the two programs use. \<open>rname\<close> is the reference
  name, already resolved (\<open>bamfile.getrname(read.rname)\<close>). A cigar is a list of pairs
  \<open>(op, length)\<close>; the operation codes are 0 M, 1 I, 2 D, 3 N, 4 S, 5 H, 6 P.
\<close>

record read =
  qname :: string
  flag :: nat
  is_unmapped :: bool
  is_reverse :: bool
  rname :: string
  pos :: int
  mapq :: int
  cigar :: "(nat \<times> nat) list"
  seq :: string
  qual :: string
  tags :: "(string \<times> pyval) list"

section \<open>The clipping normalizer (removeclipping.py, lines 20-77)\<close>

record clip_state =
  newcigar :: "(nat \<times> nat) list"
  clip_5 :: nat
  clip_3 :: nat
  changed :: bool
  inseq :: bool

text \<open>The state before the loop over the cigar (lines 26-32).\<close>

definition clip_start :: clip_state where
  "clip_start = \<lparr>newcigar = [], clip_5 = 0, clip_3 = 0, changed = False, inseq = False\<rparr>"

text \<open>The loop over \<open>read.cigar\<close> (lines 33-44).\<close>

fun clip_loop :: "(nat \<times> nat) list \<Rightarrow> clip_state \<Rightarrow> clip_state" where
  "clip_loop [] st = st"
| "clip_loop ((op, len) # rest) st =
     clip_loop rest
       (if op = 5 then st\<lparr>changed := True\<rparr>
        else if op = 4 then
          (if \<not> inseq st then st\<lparr>changed := True, clip_5 := len\<rparr>
           else st\<lparr>changed := True, clip_3 := len\<rparr>)
        else st\<lparr>inseq := True, newcigar := newcigar st @ [(op, len)]\<rparr>)"

text \<open>
  Python slices. \<open>s[a:]\<close> drops \<open>a\<close> items. In \<open>s[a:-b]\<close> with \<open>b > 0\<close> the bound
  \<open>-b\<close> stands for \<open>len(s) - b\<close>, or 0 when that is negative, and the start \<open>a\<close> is cut
  down to \<open>len(s)\<close>; the slice is empty when the start is not below the bound.
\<close>

definition slice_from :: "nat \<Rightarrow> 'a list \<Rightarrow> 'a list" where
  "slice_from a s = drop a s"

definition slice_upto_back :: "nat \<Rightarrow> nat \<Rightarrow> 'a list \<Rightarrow> 'a list" where
  "slice_upto_back a b s =
     (let n = length s;
          lo = min a n;
          hi = (if b \<le> n then n - b else 0)
      in if lo < hi then take (hi - lo) (drop lo s) else [])"

text \<open>
  The body of the loop over the reads (lines 26-70): the new record, and whether it was
  altered. \<open>float(clip_5 + clip_3) / orig_length\<close> raises on an empty sequence.
\<close>

definition removeclipping_read :: "read \<Rightarrow> py_error + (read \<times> bool)" where
  "removeclipping_read rd =
     (if \<not> is_unmapped rd then
        (let st = clip_loop (cigar rd) clip_start in
         if changed st then
           (let orig_length = length (seq rd);
                s = seq rd;
                q = qual rd;
                s' = (if clip_3 st \<noteq> 0 then slice_upto_back (clip_5 st) (clip_3 st) s
                      else slice_from (clip_5 st) s);
                q' = (if clip_3 st \<noteq> 0 then slice_upto_back (clip_5 st) (clip_3 st) q
                      else slice_from (clip_5 st) q);
                newtags = tags rd
                  @ (if clip_5 st \<noteq> 0 then [(''ZA'', VInt (int (clip_5 st)))] else [])
                  @ (if clip_3 st \<noteq> 0 then [(''ZB'', VInt (int (clip_3 st)))] else [])
            in if orig_length = 0 then Inl ZeroDivisionError
               else Inr (rd\<lparr>cigar := newcigar st, seq := s', qual := q',
                           tags := newtags @ [(''ZC'',
                             VFloat (of_nat (clip_5 st + clip_3 st) / of_nat orig_length))]\<rparr>,
                         True))
         else Inr (rd, False))
      else Inr (rd, False))"

text \<open>
  The pass over the file: every record is written out, altered or not; \<open>n_total\<close> (the source's
  \<open>total\<close>) counts the records and \<open>n_count\<close> (\<open>count\<close>) the altered ones. A raise ends the pass.
\<close>

fun removeclipping_loop :: "read list \<Rightarrow> read list \<times> nat \<times> nat \<Rightarrow> py_error + (read list \<times> nat \<times> nat)" where
  "removeclipping_loop [] acc = Inr acc"
| "removeclipping_loop (rd # rest) (out, n_total, n_count) =
     (case removeclipping_read rd of
        Inl err \<Rightarrow> Inl err
      | Inr (rd', ch) \<Rightarrow>
          removeclipping_loop rest (out @ [rd'], n_total + 1, (if ch then n_count + 1 else n_count)))"

definition bam_removeclipping :: "read list \<Rightarrow> py_error + (read list \<times> nat \<times> nat)" where
  "bam_removeclipping bam = removeclipping_loop bam ([], 0, 0)"

text \<open>
  The words of the claims about the cigar: a clip is a soft clip (4) or a hard clip (5);
  the operations before the first retained one are the longest prefix of clips; the
  soft-clip lengths of a list of operations, in order.
\<close>

definition is_clip :: "nat \<times> nat \<Rightarrow> bool" where
  "is_clip x \<longleftrightarrow> fst x = 4 \<or> fst x = 5"

definition soft_lengths :: "(nat \<times> nat) list \<Rightarrow> nat list" where
  "soft_lengths cg = map snd (filter (\<lambda>x. fst x = 4) cg)"

definition last_or :: "nat \<Rightarrow> nat list \<Rightarrow> nat" where
  "last_or d xs = (if xs = [] then d else last xs)"

section \<open>FeatureBin (bam_stats.py, lines 121-186)\<close>

text \<open>
  Values of a tag are integers, floats or strings. Python 2 compares two numbers by
  value, takes every number to be smaller than every string, and compares two strings
  lexicographically; \<open>1 == 1.0\<close> holds, also for the keys of a dict. A value is false
  in a condition when it is \<open>None\<close>, zero or the empty string.
\<close>

fun py_num :: "pyval \<Rightarrow> rat option" where
  "py_num (VInt i) = Some (of_int i)"
| "py_num (VFloat q) = Some q"
| "py_num (VStr s) = None"

fun py_eq :: "pyval \<Rightarrow> pyval \<Rightarrow> bool" where
  "py_eq (VStr s) (VStr t) = (s = t)"
| "py_eq (VStr s) b = False"
| "py_eq a (VStr t) = False"
| "py_eq a b = (py_num a = py_num b)"

fun py_lt :: "pyval \<Rightarrow> pyval \<Rightarrow> bool" where
  "py_lt (VStr s) (VStr t) = (s < t)"
| "py_lt (VStr s) b = False"
| "py_lt a (VStr t) = True"
| "py_lt a b = (case (py_num a, py_num b) of (Some x, Some y) \<Rightarrow> x < y | _ \<Rightarrow> False)"

fun py_true :: "pyval \<Rightarrow> bool" where
  "py_true (VInt i) = (i \<noteq> 0)"
| "py_true (VFloat q) = (q \<noteq> 0)"
| "py_true (VStr s) = (s \<noteq> [])"

text \<open>\<open>not x\<close> for a variable that holds \<open>None\<close> or a value.\<close>

definition py_not :: "pyval option \<Rightarrow> bool" where
  "py_not x = (case x of None \<Rightarrow> True | Some v \<Rightarrow> \<not> py_true v)"

text \<open>
  \<open>k * n\<close> for an integer \<open>n\<close>: a product, or the string repeated (no repetition for
  \<open>n \<le> 0\<close>). \<open>a + b\<close>: a sum of numbers, a concatenation of strings, a TypeError for
  a number and a string.
\<close>

fun py_mul :: "pyval \<Rightarrow> int \<Rightarrow> pyval" where
  "py_mul (VInt i) n = VInt (i * n)"
| "py_mul (VFloat q) n = VFloat (q * of_int n)"
| "py_mul (VStr s) n = VStr (concat (replicate (nat n) s))"

fun py_add :: "pyval \<Rightarrow> pyval \<Rightarrow> py_error + pyval" where
  "py_add (VInt i) (VInt j) = Inr (VInt (i + j))"
| "py_add (VInt i) (VFloat q) = Inr (VFloat (of_int i + q))"
| "py_add (VFloat p) (VInt j) = Inr (VFloat (p + of_int j))"
| "py_add (VFloat p) (VFloat q) = Inr (VFloat (p + q))"
| "py_add (VStr s) (VStr t) = Inr (VStr (s @ t))"
| "py_add a b = Inl TypeError"

text \<open>
  A dict with values as keys, as the list of its items: a key is found by \<open>==\<close>, a new
  key goes to the end, a found key keeps its place and its first spelling.
\<close>

fun dict_get :: "(pyval \<times> 'v) list \<Rightarrow> pyval \<Rightarrow> 'v option" where
  "dict_get [] k = None"
| "dict_get ((k', v) # rest) k = (if py_eq k' k then Some v else dict_get rest k)"

fun dict_set :: "(pyval \<times> 'v) list \<Rightarrow> pyval \<Rightarrow> 'v \<Rightarrow> (pyval \<times> 'v) list" where
  "dict_set [] k v = [(k, v)]"
| "dict_set ((k', v') # rest) k v =
     (if py_eq k' k then (k', v) # rest else (k', v') # dict_set rest k v)"

record FeatureBin =
  tag :: string
  asc :: bool
  bins :: "(pyval \<times> int) list"
  keys_list :: "pyval list"
  min_seen :: "pyval option"
  max_seen :: "pyval option"
  cur_pos :: int

text \<open>
  \<open>str.split(':')\<close>, and the constructor. The fields \<open>keys_list\<close>, \<open>min_seen\<close> and
  \<open>max_seen\<close> are the source's \<open>_keys\<close>, \<open>_min\<close> and \<open>_max\<close>.
\<close>

fun split_on :: "char \<Rightarrow> string \<Rightarrow> string list" where
  "split_on d [] = [[]]"
| "split_on d (c # cs) =
     (if c = d then [] # split_on d cs
      else (case split_on d cs of [] \<Rightarrow> [[c]] | w # ws \<Rightarrow> (c # w) # ws))"

definition FeatureBin_init :: "string \<Rightarrow> FeatureBin" where
  "FeatureBin_init tag_arg =
     (let spl = split_on CHR '':'' tag_arg in
      \<lparr>tag = hd spl,
       asc = (if length spl > 1 then (if spl ! 1 = ''+'' then True else False) else True),
       bins = [], keys_list = [], min_seen = None, max_seen = None, cur_pos = -1\<rparr>)"

text \<open>
  \<open>add\<close> from the point where \<open>val\<close> is known (lines 178-186), and the choice of
  \<open>val\<close> (lines 169-176). \<open>read_calc_mismatches\<close> is imported from a module outside
  these sources and is a parameter here; \<open>read.opt\<close> raises KeyError on a missing tag.
\<close>

definition add_value :: "FeatureBin \<Rightarrow> pyval \<Rightarrow> FeatureBin" where
  "add_value fb val =
     (let fb1 = (if dict_get (bins fb) val = None
                 then fb\<lparr>bins := dict_set (bins fb) val 0, keys_list := keys_list fb @ [val]\<rparr>
                 else fb);
          fb2 = fb1\<lparr>bins := dict_set (bins fb1) val
                   ((case dict_get (bins fb1) val of None \<Rightarrow> 0 | Some c \<Rightarrow> c) + 1)\<rparr>;
          fb3 = (if py_not (min_seen fb2) \<or> (case min_seen fb2 of None \<Rightarrow> False | Some m \<Rightarrow> py_lt val m)
                 then fb2\<lparr>min_seen := Some val\<rparr> else fb2);
          fb4 = (if py_not (max_seen fb3) \<or> (case max_seen fb3 of None \<Rightarrow> False | Some m \<Rightarrow> py_lt m val)
                 then fb3\<lparr>max_seen := Some val\<rparr> else fb3)
      in fb4)"

definition read_opt :: "read \<Rightarrow> string \<Rightarrow> py_error + pyval" where
  "read_opt rd t = (case map_of (tags rd) t of None \<Rightarrow> Inl KeyError | Some v \<Rightarrow> Inr v)"

definition read_value :: "(read \<Rightarrow> py_error + pyval) \<Rightarrow> FeatureBin \<Rightarrow> read \<Rightarrow> py_error + pyval" where
  "read_value read_calc_mismatches fb rd =
     (if tag fb \<in> set [''LENGTH'', ''LEN''] then Inr (VInt (int (length (seq rd))))
      else if tag fb = ''MAPQ'' then Inr (VInt (mapq rd))
      else if tag fb = ''MISMATCH'' then read_calc_mismatches rd
      else read_opt rd (tag fb))"

definition FeatureBin_add :: "(read \<Rightarrow> py_error + pyval) \<Rightarrow> FeatureBin \<Rightarrow> read \<Rightarrow> py_error + FeatureBin" where
  "FeatureBin_add read_calc_mismatches fb rd =
     (case read_value read_calc_mismatches fb rd of
        Inl err \<Rightarrow> Inl err
      | Inr val \<Rightarrow> Inr (add_value fb val))"

text \<open>
  The property \<open>mean\<close> (lines 151-162). The loop runs over the items of \<open>bins\<close>;
  \<open>Inl v\<close> is the \<open>return v\<close> of the \<open>except\<close> branch, \<open>Inr (acc, count)\<close> the end of
  the loop. The bare \<open>except\<close> catches every error of the two statements under
  \<open>try\<close>; adding the integer count cannot fail. The division after the loop is outside
  the \<open>try\<close>. \<open>float(acc)\<close> is the number \<open>acc\<close> holds; \<open>acc\<close> never holds a
  string there (lemma \<open>mean_loop_numeric\<close> below), and the model gives that unreached
  case a TypeError.
\<close>

fun mean_loop :: "(pyval \<times> int) list \<Rightarrow> pyval \<Rightarrow> int \<Rightarrow> pyval + (pyval \<times> int)" where
  "mean_loop [] acc n = Inr (acc, n)"
| "mean_loop ((k, c) # rest) acc n =
     (case py_add acc (py_mul k c) of
        Inl err \<Rightarrow> Inl (VInt 0)
      | Inr acc' \<Rightarrow> mean_loop rest acc' (n + c))"

definition mean :: "FeatureBin \<Rightarrow> py_error + pyval" where
  "mean fb =
     (case mean_loop (bins fb) (VInt 0) 0 of
        Inl v \<Rightarrow> Inr v
      | Inr (acc, n) \<Rightarrow>
          (case py_num acc of
             None \<Rightarrow> Inl TypeError
           | Some x \<Rightarrow> if n = 0 then Inl ZeroDivisionError else Inr (VFloat (x / of_int n))))"

text \<open>The property \<open>max\<close> (lines 164-166): \<open>None\<close> before any value was added.\<close>

definition FeatureBin_max :: "FeatureBin \<Rightarrow> pyval option" where
  "FeatureBin_max fb = max_seen fb"

text \<open>The values added, one after the other, to a fresh bin.\<close>

definition add_values :: "FeatureBin \<Rightarrow> pyval list \<Rightarrow> FeatureBin" where
  "add_values fb vals = foldl add_value fb vals"

text \<open>The number a numeric value stands for (0 for a string, which has none).\<close>

definition num_val :: "pyval \<Rightarrow> rat" where
  "num_val v = (case py_num v of None \<Rightarrow> 0 | Some x \<Rightarrow> x)"

section \<open>RegionTagger (bam_stats.py, lines 189-256)\<close>

text \<open>
  The gene model comes from the RefIso loader, which is outside these sources; the
  constructor sees it as a list of genes with these attributes.
\<close>

record transcript =
  exon_starts :: "int list"
  exon_ends :: "int list"

record gene =
  gene_chrom :: string
  gene_strand :: string
  tx_start :: int
  tx_end :: int
  transcripts :: "transcript list"

record RegionTagger =
  regions :: "RangeMatch list"
  counts :: "string \<rightharpoonup> int"

text \<open>
  A condition on a variable that holds \<open>None\<close> or a string (\<open>if tag\<close>), or \<open>None\<close> or
  an integer (\<open>if last_end\<close>): \<open>None\<close>, the empty string and 0 are false.
\<close>

definition str_true :: "string option \<Rightarrow> bool" where
  "str_true x = (case x of None \<Rightarrow> False | Some s \<Rightarrow> s \<noteq> [])"

definition int_true :: "int option \<Rightarrow> bool" where
  "int_true x = (case x of None \<Rightarrow> False | Some i \<Rightarrow> i \<noteq> 0)"

text \<open>
  The loop over the exons of one transcript (lines 209-214), on the pair of indexes
  \<open>(exons, introns)\<close>, and the loop over the transcripts of a gene.
\<close>

fun exon_loop :: "string \<Rightarrow> string \<Rightarrow> (int \<times> int) list \<Rightarrow> int option
    \<Rightarrow> RangeMatch \<times> RangeMatch \<Rightarrow> RangeMatch \<times> RangeMatch" where
  "exon_loop c st [] last_end (exons, introns) = (exons, introns)"
| "exon_loop c st ((start, endp) # rest) last_end (exons, introns) =
     exon_loop c st rest (Some endp)
       (add_range exons c st start endp,
        (case last_end of
           None \<Rightarrow> introns
         | Some le \<Rightarrow> if int_true last_end then add_range introns c st le start else introns))"

fun transcript_loop :: "string \<Rightarrow> string \<Rightarrow> transcript list
    \<Rightarrow> RangeMatch \<times> RangeMatch \<Rightarrow> RangeMatch \<times> RangeMatch" where
  "transcript_loop c st [] ei = ei"
| "transcript_loop c st (tr # rest) ei =
     transcript_loop c st rest
       (exon_loop c st (zip (exon_starts tr) (exon_ends tr)) None ei)"

text \<open>The loop over the genes (lines 200-214), on \<open>(exons, introns, promoters)\<close>.\<close>

fun gene_loop :: "gene list \<Rightarrow> string list
    \<Rightarrow> RangeMatch \<times> RangeMatch \<times> RangeMatch \<Rightarrow> RangeMatch \<times> RangeMatch \<times> RangeMatch" where
  "gene_loop [] chroms eip = eip"
| "gene_loop (g # rest) chroms (exons, introns, promoters) =
     (if gene_chrom g \<notin> set chroms then gene_loop rest chroms (exons, introns, promoters)
      else
        (let promoters' =
               (if gene_strand g = ''+''
                then add_range promoters (gene_chrom g) (gene_strand g) (tx_start g - 2000) (tx_start g)
                else add_range promoters (gene_chrom g) (gene_strand g) (tx_end g) (tx_end g + 2000));
             (exons', introns') =
               transcript_loop (gene_chrom g) (gene_strand g) (transcripts g) (exons, introns)
         in gene_loop rest chroms (exons', introns', promoters')))"

definition build_regions :: "gene list \<Rightarrow> string list \<Rightarrow> RangeMatch \<times> RangeMatch \<times> RangeMatch" where
  "build_regions genes chroms =
     gene_loop genes chroms
       (RangeMatch_init ''exon'', RangeMatch_init ''intron'', RangeMatch_init ''promoter'')"

definition RegionTagger_init :: "gene list \<Rightarrow> string list \<Rightarrow> RegionTagger" where
  "RegionTagger_init genes chroms =
     (case build_regions genes chroms of
        (exons, introns, promoters) \<Rightarrow>
          \<lparr>regions = [exons, introns, promoters],
           counts = Map.empty
             (''exon'' \<mapsto> 0, ''intron'' \<mapsto> 0, ''promoter'' \<mapsto> 0,
              ''exon-rev'' \<mapsto> 0, ''intron-rev'' \<mapsto> 0, ''promoter-rev'' \<mapsto> 0,
              ''junction'' \<mapsto> 0, ''intergenic'' \<mapsto> 0, ''mitochondrial'' \<mapsto> 0)\<rparr>)"

text \<open>
  \<open>add_read\<close> (lines 230-256). The two loops set the variable \<open>tag\<close>: the one over the
  cigar stops at the first operation 3, the one over the regions assigns every answer of
  \<open>get_tag\<close> and stops at the first that is true. \<open>self.counts[tag] += 1\<close> raises
  KeyError for a tag that is not a key.
\<close>

fun cigar_loop :: "(nat \<times> nat) list \<Rightarrow> string option \<Rightarrow> string option" where
  "cigar_loop [] tg = tg"
| "cigar_loop ((op, len) # rest) tg =
     (if op = 3 then Some ''junction'' else cigar_loop rest tg)"

fun region_loop :: "RangeMatch list \<Rightarrow> string \<Rightarrow> string \<Rightarrow> int \<Rightarrow> string option \<Rightarrow> string option" where
  "region_loop [] chrom strand p tg = tg"
| "region_loop (region # rest) chrom strand p tg =
     (let tg' = get_tag region chrom strand p False
      in if str_true tg' then tg' else region_loop rest chrom strand p tg')"

definition add_read :: "RegionTagger \<Rightarrow> read \<Rightarrow> string \<Rightarrow> py_error + RegionTagger" where
  "add_read t rd chrom =
     (if is_unmapped rd then Inr t
      else
        (let tag0 = None;
             strand = (if is_reverse rd then ''-'' else ''+'');
             tag1 = (if chrom = ''chrM'' then Some ''mitochondrial'' else tag0);
             tag2 = (if \<not> str_true tag1 then cigar_loop (cigar rd) tag1 else tag1);
             tag3 = (if \<not> str_true tag2 then region_loop (regions t) chrom strand (pos rd) tag2
                     else tag2);
             tag4 = (if \<not> str_true tag3 then Some ''intergenic'' else tag3)
         in if str_true tag4 then
              (case tag4 of
                 None \<Rightarrow> Inr t
               | Some tg \<Rightarrow>
                   (case counts t tg of
                      None \<Rightarrow> Inl KeyError
                    | Some c \<Rightarrow> Inr (t\<lparr>counts := (counts t)(tg \<mapsto> c + 1)\<rparr>)))
            else Inr t))"

text \<open>A run of \<open>add_read\<close> calls, one per pair of a read and its reference name.\<close>

fun add_reads :: "RegionTagger \<Rightarrow> (read \<times> string) list \<Rightarrow> py_error + RegionTagger" where
  "add_reads t [] = Inr t"
| "add_reads t ((rd, chrom) # rest) =
     (case add_read t rd chrom of Inl err \<Rightarrow> Inl err | Inr t' \<Rightarrow> add_reads t' rest)"

text \<open>
  The words of claim C1: the nine categories, the value of a counter, and the category
  of a mapped read by the stated priority.
\<close>

definition categories :: "string list" where
  "categories = [''exon'', ''intron'', ''promoter'', ''exon-rev'', ''intron-rev'',
     ''promoter-rev'', ''junction'', ''intergenic'', ''mitochondrial'']"

definition count_of :: "RegionTagger \<Rightarrow> string \<Rightarrow> int" where
  "count_of t k = (case counts t k of None \<Rightarrow> 0 | Some c \<Rightarrow> c)"

definition read_category :: "RangeMatch \<Rightarrow> RangeMatch \<Rightarrow> RangeMatch \<Rightarrow> read \<Rightarrow> string \<Rightarrow> string" where
  "read_category exons introns promoters rd chrom =
     (let strand = (if is_reverse rd then ''-'' else ''+'') in
      if chrom = ''chrM'' then ''mitochondrial''
      else if \<exists>x \<in> set (cigar rd). fst x = 3 then ''junction''
      else (case get_tag exons chrom strand (pos rd) False of
              Some tg \<Rightarrow> tg
            | None \<Rightarrow>
               (case get_tag introns chrom strand (pos rd) False of
                  Some tg \<Rightarrow> tg
                | None \<Rightarrow>
                   (case get_tag promoters chrom strand (pos rd) False of
                      Some tg \<Rightarrow> tg
                    | None \<Rightarrow> ''intergenic''))))"

section \<open>bam_stats (bam_stats.py, lines 64-76 and 259-414)\<close>

definition flag_descriptions :: "(nat \<times> string) list" where
  "flag_descriptions =
     [(0x1, ''Multiple fragments''),
      (0x2, ''All fragments aligned''),
      (0x4, ''Unmapped''),
      (0x8, ''Next unmapped''),
      (0x10, ''Reverse complimented''),
      (0x20, ''Next reverse complimented''),
      (0x40, ''First fragment''),
      (0x80, ''Last fragment''),
      (0x100, ''Secondary alignment''),
      (0x200, ''QC Fail''),
      (0x400, ''PCR/Optical duplicate'')]"

text \<open>
  The state of the pass over the reads. \<open>flag_counts\<close> is the dict from raw flag values
  to counts, as the list of its items; \<open>n_total\<close>, \<open>n_mapped\<close> and \<open>n_unmapped\<close> are
  the source's \<open>total\<close>, \<open>mapped\<close> and \<open>unmapped\<close>. The per-reference counters, the
  progress display and the restriction to a region are left out: they do not touch what
  is modelled here.
\<close>

record stats =
  flag_counts :: "(nat \<times> nat) list"
  names :: "string set"
  n_total :: nat
  n_mapped :: nat
  n_unmapped :: nat
  regiontagger :: "RegionTagger option"
  tagbins :: "FeatureBin list"

text \<open>Lines 321-324: a new flag value gets the count 1, a known one is counted up.\<close>

fun count_flag :: "(nat \<times> nat) list \<Rightarrow> nat \<Rightarrow> (nat \<times> nat) list" where
  "count_flag [] f = [(f, 1)]"
| "count_flag ((f', c) # rest) f =
     (if f' = f then (f', c + 1) # rest else (f', c) # count_flag rest f)"

text \<open>Lines 343-344: every bin takes the read; a raise ends the pass.\<close>

fun tagbins_add :: "(read \<Rightarrow> py_error + pyval) \<Rightarrow> FeatureBin list \<Rightarrow> read \<Rightarrow> py_error + FeatureBin list" where
  "tagbins_add calc [] rd = Inr []"
| "tagbins_add calc (tb # rest) rd =
     (case FeatureBin_add calc tb rd of
        Inl err \<Rightarrow> Inl err
      | Inr tb' \<Rightarrow>
          (case tagbins_add calc rest rd of
             Inl err \<Rightarrow> Inl err
           | Inr rest' \<Rightarrow> Inr (tb' # rest')))"

text \<open>The body of the loop over the reads (lines 317-344).\<close>

definition stats_step :: "(read \<Rightarrow> py_error + pyval) \<Rightarrow> stats \<Rightarrow> read \<Rightarrow> py_error + stats" where
  "stats_step calc s rd =
     (if qname rd \<in> names s then Inr s
      else
        (let s1 = s\<lparr>flag_counts := count_flag (flag_counts s) (flag rd),
                     names := insert (qname rd) (names s),
                     n_total := n_total s + 1\<rparr>
         in if is_unmapped rd then Inr (s1\<lparr>n_unmapped := n_unmapped s1 + 1\<rparr>)
            else
              (let s2 = s1\<lparr>n_mapped := n_mapped s1 + 1\<rparr> in
               case (case regiontagger s2 of
                       None \<Rightarrow> Inr None
                     | Some t \<Rightarrow>
                         (case add_read t rd (rname rd) of
                            Inl err \<Rightarrow> Inl err
                          | Inr t' \<Rightarrow> Inr (Some t'))) of
                 Inl err \<Rightarrow> Inl err
               | Inr rt \<Rightarrow>
                   (case tagbins_add calc (tagbins s2) rd of
                      Inl err \<Rightarrow> Inl err
                    | Inr tbs \<Rightarrow> Inr (s2\<lparr>regiontagger := rt, tagbins := tbs\<rparr>)))))"

fun stats_loop :: "(read \<Rightarrow> py_error + pyval) \<Rightarrow> stats \<Rightarrow> read list \<Rightarrow> py_error + stats" where
  "stats_loop calc s [] = Inr s"
| "stats_loop calc s (rd # rest) =
     (case stats_step calc s rd of
        Inl err \<Rightarrow> Inl err
      | Inr s' \<Rightarrow> stats_loop calc s' rest)"

text \<open>
  The rows of the flag distribution (lines 359-374): flag, description, count and the
  percentage \<open>float(count) * 100 / total\<close>, which the source prints with one decimal.
\<close>

definition flag_rows :: "(nat \<times> nat) list \<Rightarrow> nat \<Rightarrow> (nat \<times> string \<times> nat \<times> rat) list" where
  "flag_rows fc tot =
     (let tmp = sort (filter (\<lambda>flag. map_of fc flag \<noteq> None) (map fst flag_descriptions))
      in concat (map (\<lambda>flag.
           (let n = sum_list (map snd (filter (\<lambda>fcnt. (fst fcnt AND flag) > 0) fc))
            in if n > 0
               then [(flag, (case map_of flag_descriptions flag of None \<Rightarrow> [] | Some d \<Rightarrow> d),
                      n, of_nat n * 100 / of_nat tot)]
               else [])) tmp))"

text \<open>
  The whole run with the gene model already loaded (\<open>None\<close> without \<open>-model\<close>): the
  three totals and, when \<open>total > 0\<close>, the flag rows. A raise in the pass ends the run
  with no report.
\<close>

definition bam_stats :: "(read \<Rightarrow> py_error + pyval) \<Rightarrow> gene list option \<Rightarrow> string list \<Rightarrow> string list
    \<Rightarrow> read list \<Rightarrow> py_error + (nat \<times> nat \<times> nat \<times> (nat \<times> string \<times> nat \<times> rat) list)" where
  "bam_stats calc model references tag_args bamfile =
     (let s0 = \<lparr>flag_counts = [], names = {}, n_total = 0, n_mapped = 0, n_unmapped = 0,
                regiontagger = (case model of
                                  None \<Rightarrow> None
                                | Some genes \<Rightarrow> Some (RegionTagger_init genes references)),
                tagbins = map FeatureBin_init tag_args\<rparr>
      in case stats_loop calc s0 bamfile of
           Inl err \<Rightarrow> Inl err
         | Inr s \<Rightarrow>
             Inr (n_total s, n_mapped s, n_unmapped s,
                  (if n_total s > 0 then flag_rows (flag_counts s) (n_total s) else [])))"

section \<open>Facts about RangeMatch\<close>

lemma fold_bucket_insert:
  "distinct bs \<Longrightarrow>
   fold (\<lambda>b d. bucket_insert d b iv) bs d b' =
     (if b' \<in> set bs then Some (iv # (case d b' of None \<Rightarrow> [] | Some l \<Rightarrow> l)) else d b')"
proof (induction bs arbitrary: d)
  case Nil
  then show ?case by simp
next
  case (Cons b bs)
  then show ?case
    by (auto simp: bucket_insert_def split: option.splits)
qed

lemma bucket_insert_apply:
  "bucket_insert d b iv b' =
     (if b' = b then Some (iv # (case d b of None \<Rightarrow> [] | Some l \<Rightarrow> l)) else d b')"
  by (simp add: bucket_insert_def split: option.splits)

lemma span_insert:
  "(if e div 100000 \<noteq> s div 100000
    then fold (\<lambda>b d. bucket_insert d b iv) [s div 100000 + 1 .. e div 100000]
           (bucket_insert d0 (s div 100000) iv)
    else bucket_insert d0 (s div 100000) iv) b =
   (if in_span s e b then Some (iv # (case d0 b of None \<Rightarrow> [] | Some l \<Rightarrow> l)) else d0 b)"
proof -
  have d: "distinct [s div 100000 + 1 .. e div 100000]" by simp
  show ?thesis
  proof (cases "e div 100000 \<noteq> s div 100000")
    case True
    then show ?thesis
      by (auto simp: fold_bucket_insert [OF d] bucket_insert_apply in_span_def)
  next
    case False
    then show ?thesis
      by (auto simp: bucket_insert_apply in_span_def)
  qed
qed

lemma ranges_add_range:
  "ranges (add_range rm c st s e) c' =
     (if c' = c then
        Some (if e div 100000 \<noteq> s div 100000
              then fold (\<lambda>b d. bucket_insert d b (s, e, st)) [s div 100000 + 1 .. e div 100000]
                     (bucket_insert (case ranges rm c of None \<Rightarrow> Map.empty | Some d \<Rightarrow> d)
                        (s div 100000) (s, e, st))
              else bucket_insert (case ranges rm c of None \<Rightarrow> Map.empty | Some d \<Rightarrow> d)
                     (s div 100000) (s, e, st))
      else ranges rm c')"
  by (simp add: add_range_def Let_def)

lemma bucket_of_add_range:
  "bucket_of (add_range rm c st s e) c' b =
     (if c' = c \<and> in_span s e b then (s, e, st) # bucket_of rm c' b else bucket_of rm c' b)"
proof (cases "c' = c")
  case False
  then show ?thesis by (simp add: bucket_of_def ranges_add_range)
next
  case True
  show ?thesis
    unfolding True bucket_of_def ranges_add_range
    by (simp only: simp_thms if_True option.case span_insert) (simp split: option.splits)
qed

lemma scan_bucket_step:
  "scan_bucket nm st p ig rv (iv # l) =
     (if covers p iv then
        (if ig \<or> st = snd (snd iv) then Some nm else scan_bucket nm st p ig True l)
      else scan_bucket nm st p ig rv l)"
  by (cases iv) (simp add: covers_def)

lemma scan_bucket_char:
  "scan_bucket nm st p ig rv l =
     (if \<exists>iv \<in> set l. covers p iv \<and> (ig \<or> st = snd (snd iv)) then Some nm
      else if rv \<or> (\<exists>iv \<in> set l. covers p iv) then Some (nm @ ''-rev'')
      else None)"
proof (induction l arbitrary: rv)
  case Nil
  then show ?case by simp
next
  case (Cons iv l)
  show ?case
  proof (cases "covers p iv")
    case False
    then show ?thesis
      unfolding scan_bucket_step Cons.IH by auto
  next
    case True
    show ?thesis
    proof (cases "ig \<or> st = snd (snd iv)")
      case True
      with \<open>covers p iv\<close> show ?thesis
        unfolding scan_bucket_step by auto
    next
      case False
      with \<open>covers p iv\<close> show ?thesis
        unfolding scan_bucket_step Cons.IH by auto
    qed
  qed
qed

lemma name_add_range: "name (add_range rm c st s e) = name rm"
  by (simp add: add_range_def Let_def)

lemma add_ranges_snoc:
  "add_ranges rm (calls @ [(c, st, s, e)]) = add_range (add_ranges rm calls) c st s e"
  by (simp add: add_ranges_def)

lemma name_add_ranges: "name (add_ranges rm calls) = name rm"
proof (induction calls rule: rev_induct)
  case Nil
  then show ?case by (simp add: add_ranges_def)
next
  case (snoc x calls)
  obtain c st s e where x: "x = (c, st, s, e)" by (cases x) auto
  show ?case unfolding x add_ranges_snoc name_add_range by (rule snoc.IH)
qed

lemma set_bucket_of_add_ranges:
  "set (bucket_of (add_ranges rm calls) c b) =
     set (bucket_of rm c b) \<union> {(s, e, st). (c, st, s, e) \<in> set calls \<and> in_span s e b}"
proof (induction calls rule: rev_induct)
  case Nil
  then show ?case by (simp add: add_ranges_def)
next
  case (snoc x calls)
  obtain c' st' s' e' where x: "x = (c', st', s', e')" by (cases x) auto
  show ?case
    unfolding x add_ranges_snoc bucket_of_add_range
    using snoc.IH by auto
qed

lemma bucket_of_init: "bucket_of (RangeMatch_init nm) c b = []"
  by (simp add: bucket_of_def RangeMatch_init_def)

lemma get_tag_bucket_of:
  "get_tag rm c st p ig = scan_bucket (name rm) st p ig False (bucket_of rm c (p div 100000))"
  by (simp add: get_tag_def bucket_of_def split: option.splits)

lemma in_span_point:
  assumes "s \<le> p" "p \<le> e"
  shows "in_span s e (p div 100000)"
proof -
  from assms have "s div 100000 \<le> p div 100000" "p div 100000 \<le> e div 100000"
    by (simp_all add: zdiv_mono1)
  then show ?thesis by (auto simp: in_span_def)
qed

lemma set_bucket_built:
  "set (bucket_of (add_ranges (RangeMatch_init C) calls) c b) =
     {(s, e, st). (c, st, s, e) \<in> set calls \<and> in_span s e b}"
  by (simp add: set_bucket_of_add_ranges bucket_of_init)

lemma get_tag_built:
  "get_tag (add_ranges (RangeMatch_init C) calls) c st p ig =
     (if \<exists>(c', st', s, e) \<in> set calls. c' = c \<and> s \<le> p \<and> p \<le> e \<and> (ig \<or> st = st') then Some C
      else if \<exists>(c', st', s, e) \<in> set calls. c' = c \<and> s \<le> p \<and> p \<le> e then Some (C @ ''-rev'')
      else None)"
proof -
  let ?B = "{(s, e, st). (c, st, s, e) \<in> set calls \<and> in_span s e (p div 100000)}"
  have a: "(\<exists>iv \<in> ?B. covers p iv \<and> (ig \<or> st = snd (snd iv))) \<longleftrightarrow>
        (\<exists>(c', st', s, e) \<in> set calls. c' = c \<and> s \<le> p \<and> p \<le> e \<and> (ig \<or> st = st'))"
    by (fastforce simp: covers_def in_span_point)
  have b: "(\<exists>iv \<in> ?B. covers p iv) \<longleftrightarrow>
        (\<exists>(c', st', s, e) \<in> set calls. c' = c \<and> s \<le> p \<and> p \<le> e)"
    by (fastforce simp: covers_def in_span_point)
  show ?thesis
    unfolding get_tag_bucket_of scan_bucket_char set_bucket_built name_add_ranges a b
    by (simp add: RangeMatch_init_def)
qed

text \<open>
  Claim C2. In an index named \<open>C\<close> built by \<open>add_range\<close> calls, a point \<open>p\<close> with
  \<open>start \<le> p \<le> end\<close> for an inserted interval of the queried chromosome and strand
  gets the tag \<open>C\<close>; a point outside every inserted interval of that chromosome gets
  \<open>None\<close>; and when only intervals of the other strand contain \<open>p\<close> (and
  \<open>ignore_strand\<close> is false) the tag is \<open>C-rev\<close>.
\<close>

theorem get_tag_inserted:
  "((chrom, strand, s, e) \<in> set calls \<and> s \<le> p \<and> p \<le> e \<longrightarrow>
      get_tag (add_ranges (RangeMatch_init C) calls) chrom strand p ig = Some C) \<and>
   ((\<forall>(c', st', s', e') \<in> set calls. c' = chrom \<longrightarrow> \<not> (s' \<le> p \<and> p \<le> e')) \<longrightarrow>
      get_tag (add_ranges (RangeMatch_init C) calls) chrom strand p ig = None) \<and>
   ((\<forall>(c', st', s', e') \<in> set calls. c' = chrom \<and> s' \<le> p \<and> p \<le> e' \<longrightarrow> st' \<noteq> strand) \<and>
    (\<exists>(c', st', s', e') \<in> set calls. c' = chrom \<and> s' \<le> p \<and> p \<le> e' \<and> st' \<noteq> strand) \<longrightarrow>
      get_tag (add_ranges (RangeMatch_init C) calls) chrom strand p False = Some (C @ ''-rev''))"
proof (intro conjI impI)
  assume "(chrom, strand, s, e) \<in> set calls \<and> s \<le> p \<and> p \<le> e"
  then have "\<exists>(c', st', s, e) \<in> set calls. c' = chrom \<and> s \<le> p \<and> p \<le> e \<and> (ig \<or> strand = st')"
    by (intro bexI [of _ "(chrom, strand, s, e)"]) auto
  then show "get_tag (add_ranges (RangeMatch_init C) calls) chrom strand p ig = Some C"
    unfolding get_tag_built by simp
next
  assume h: "\<forall>(c', st', s', e') \<in> set calls. c' = chrom \<longrightarrow> \<not> (s' \<le> p \<and> p \<le> e')"
  then have "\<not> (\<exists>(c', st', s, e) \<in> set calls. c' = chrom \<and> s \<le> p \<and> p \<le> e \<and> (ig \<or> strand = st'))"
    and "\<not> (\<exists>(c', st', s, e) \<in> set calls. c' = chrom \<and> s \<le> p \<and> p \<le> e)"
    by auto
  then show "get_tag (add_ranges (RangeMatch_init C) calls) chrom strand p ig = None"
    unfolding get_tag_built by simp
next
  assume h: "(\<forall>(c', st', s', e') \<in> set calls. c' = chrom \<and> s' \<le> p \<and> p \<le> e' \<longrightarrow> st' \<noteq> strand) \<and>
    (\<exists>(c', st', s', e') \<in> set calls. c' = chrom \<and> s' \<le> p \<and> p \<le> e' \<and> st' \<noteq> strand)"
  then have "\<not> (\<exists>(c', st', s, e) \<in> set calls. c' = chrom \<and> s \<le> p \<and> p \<le> e \<and> (False \<or> strand = st'))"
    and "\<exists>(c', st', s, e) \<in> set calls. c' = chrom \<and> s \<le> p \<and> p \<le> e"
    by auto
  then show "get_tag (add_ranges (RangeMatch_init C) calls) chrom strand p False = Some (C @ ''-rev'')"
    unfolding get_tag_built by simp
qed

theorem get_tag_inserted_witness:
  "get_tag (add_ranges (RangeMatch_init ''exon'')
      [(''chr1'', ''+'', 150000, 250000), (''chr1'', ''-'', 10, 20), (''chr2'', ''+'', 5, 400000)])
      ''chr1'' ''+'' 200000 False = Some ''exon'' \<and>
   get_tag (add_ranges (RangeMatch_init ''exon'')
      [(''chr1'', ''+'', 150000, 250000), (''chr1'', ''-'', 10, 20), (''chr2'', ''+'', 5, 400000)])
      ''chr1'' ''+'' 300000 False = None \<and>
   get_tag (add_ranges (RangeMatch_init ''exon'')
      [(''chr1'', ''+'', 150000, 250000), (''chr1'', ''-'', 10, 20), (''chr2'', ''+'', 5, 400000)])
      ''chr1'' ''+'' 15 False = Some ''exon-rev''"
  using
    get_tag_inserted [of "''chr1''" "''+''" 150000 250000
      "[(''chr1'', ''+'', 150000, 250000), (''chr1'', ''-'', 10, 20), (''chr2'', ''+'', 5, 400000)]"
      200000 "''exon''" False]
    get_tag_inserted [of "''chr1''" "''+''" 150000 250000
      "[(''chr1'', ''+'', 150000, 250000), (''chr1'', ''-'', 10, 20), (''chr2'', ''+'', 5, 400000)]"
      300000 "''exon''" False]
    get_tag_inserted [of "''chr1''" "''+''" 150000 250000
      "[(''chr1'', ''+'', 150000, 250000), (''chr1'', ''-'', 10, 20), (''chr2'', ''+'', 5, 400000)]"
      15 "''exon''" False]
  by simp

text \<open>
  Claim C3. \<open>add_range\<close> puts the interval at the front of every bucket from
  \<open>start div 100000\<close> to \<open>end div 100000\<close>; hence an inserted interval that
  contains \<open>p\<close> is in bucket \<open>p div 100000\<close>, and \<open>get_tag\<close> depends on
  that one bucket only: two indexes of the same name that agree on it answer alike.
\<close>

theorem add_range_buckets:
  "(\<forall>b. start div 100000 \<le> b \<and> b \<le> endp div 100000 \<longrightarrow>
       bucket_of (add_range rm chrom strand start endp) chrom b
         = (start, endp, strand) # bucket_of rm chrom b) \<and>
   ((chrom, strand, start, endp) \<in> set calls \<and> start \<le> p \<and> p \<le> endp \<longrightarrow>
       (start, endp, strand) \<in> set (bucket_of (add_ranges rm calls) chrom (p div 100000))) \<and>
   (name rm1 = name rm2 \<and>
    bucket_of rm1 chrom (p div 100000) = bucket_of rm2 chrom (p div 100000) \<longrightarrow>
       get_tag rm1 chrom strand p ig = get_tag rm2 chrom strand p ig)"
proof (intro conjI impI allI)
  fix b
  assume "start div 100000 \<le> b \<and> b \<le> endp div 100000"
  then have "in_span start endp b" by (auto simp: in_span_def)
  then show "bucket_of (add_range rm chrom strand start endp) chrom b
         = (start, endp, strand) # bucket_of rm chrom b"
    by (simp add: bucket_of_add_range)
next
  assume h: "(chrom, strand, start, endp) \<in> set calls \<and> start \<le> p \<and> p \<le> endp"
  then have "in_span start endp (p div 100000)" by (simp add: in_span_point)
  with h show "(start, endp, strand) \<in> set (bucket_of (add_ranges rm calls) chrom (p div 100000))"
    by (simp add: set_bucket_of_add_ranges)
next
  assume "name rm1 = name rm2 \<and>
    bucket_of rm1 chrom (p div 100000) = bucket_of rm2 chrom (p div 100000)"
  then show "get_tag rm1 chrom strand p ig = get_tag rm2 chrom strand p ig"
    by (simp add: get_tag_bucket_of)
qed

theorem add_range_buckets_witness:
  "bucket_of (add_range (RangeMatch_init ''exon'') ''chr1'' ''+'' 150000 350000) ''chr1'' 2
     = [(150000, 350000, ''+'')] \<and>
   (150000, 350000, ''+'') \<in> set (bucket_of
      (add_ranges (RangeMatch_init ''exon'') [(''chr1'', ''+'', 150000, 350000), (''chr1'', ''-'', 10, 20)])
      ''chr1'' 3) \<and>
   get_tag (add_ranges (RangeMatch_init ''exon'') [(''chr1'', ''+'', 310000, 350000), (''chr1'', ''-'', 10, 20)])
       ''chr1'' ''+'' 320000 False
     = get_tag (add_range (RangeMatch_init ''exon'') ''chr1'' ''+'' 310000 350000) ''chr1'' ''+'' 320000 False"
proof -
  have a: "bucket_of (add_range (RangeMatch_init ''exon'') ''chr1'' ''+'' 150000 350000) ''chr1'' 2
     = [(150000, 350000, ''+'')]"
    using add_range_buckets [of 150000 350000 "RangeMatch_init ''exon''" "''chr1''" "''+''"]
    by (simp add: bucket_of_init)
  have b: "(150000, 350000, ''+'') \<in> set (bucket_of
      (add_ranges (RangeMatch_init ''exon'') [(''chr1'', ''+'', 150000, 350000), (''chr1'', ''-'', 10, 20)])
      ''chr1'' 3)"
    using add_range_buckets [of 150000 350000 _ "''chr1''" "''+''"
        "[(''chr1'', ''+'', 150000, 350000), (''chr1'', ''-'', 10, 20)]" 310000
        "RangeMatch_init ''exon''"]
    by simp
  have c: "get_tag (add_ranges (RangeMatch_init ''exon'') [(''chr1'', ''+'', 310000, 350000), (''chr1'', ''-'', 10, 20)])
       ''chr1'' ''+'' 320000 False
     = get_tag (add_range (RangeMatch_init ''exon'') ''chr1'' ''+'' 310000 350000) ''chr1'' ''+'' 320000 False"
    using add_range_buckets [where chrom = "''chr1''" and strand = "''+''" and p = 320000 and ig = False
        and ?rm1.0 = "add_ranges (RangeMatch_init ''exon'') [(''chr1'', ''+'', 310000, 350000), (''chr1'', ''-'', 10, 20)]"
        and ?rm2.0 = "add_range (RangeMatch_init ''exon'') ''chr1'' ''+'' 310000 350000"]
    by (simp add: add_ranges_def bucket_of_add_range bucket_of_init in_span_def name_add_range)
  from a b c show ?thesis by (intro conjI)
qed

section \<open>Facts about the clipping normalizer\<close>

lemma clip_loop_step:
  "clip_loop (x # rest) st =
     clip_loop rest
       (if fst x = 5 then st\<lparr>changed := True\<rparr>
        else if fst x = 4 then
          (if \<not> inseq st then st\<lparr>changed := True, clip_5 := snd x\<rparr>
           else st\<lparr>changed := True, clip_3 := snd x\<rparr>)
        else st\<lparr>inseq := True, newcigar := newcigar st @ [x]\<rparr>)"
  by (cases x) simp

lemma clip_loop_newcigar:
  "newcigar (clip_loop cg st) = newcigar st @ filter (\<lambda>x. \<not> is_clip x) cg"
  by (induction cg arbitrary: st) (simp_all add: clip_loop_step is_clip_def del: clip_loop.simps(2))

lemma clip_loop_changed:
  "changed (clip_loop cg st) \<longleftrightarrow> changed st \<or> (\<exists>x \<in> set cg. is_clip x)"
  by (induction cg arbitrary: st) (auto simp add: clip_loop_step is_clip_def simp del: clip_loop.simps(2))

lemma clip_loop_inseq:
  "inseq st \<Longrightarrow> clip_5 (clip_loop cg st) = clip_5 st \<and>
     clip_3 (clip_loop cg st) = last_or (clip_3 st) (soft_lengths cg)"
  by (induction cg arbitrary: st)
    (simp_all add: clip_loop_step soft_lengths_def last_or_def del: clip_loop.simps(2))

lemma clip_loop_clips:
  "\<not> inseq st \<Longrightarrow>
     clip_5 (clip_loop cg st) = last_or (clip_5 st) (soft_lengths (takeWhile is_clip cg)) \<and>
     clip_3 (clip_loop cg st) = last_or (clip_3 st) (soft_lengths (dropWhile is_clip cg))"
proof (induction cg arbitrary: st)
  case Nil
  then show ?case by (simp add: soft_lengths_def last_or_def)
next
  case (Cons x cg)
  show ?case
  proof (cases "is_clip x")
    case True
    with Cons show ?thesis
      by (auto simp add: clip_loop_step soft_lengths_def last_or_def is_clip_def
          simp del: clip_loop.simps(2))
  next
    case False
    then have "clip_loop (x # cg) st = clip_loop cg (st\<lparr>inseq := True, newcigar := newcigar st @ [x]\<rparr>)"
      by (simp add: clip_loop_step is_clip_def del: clip_loop.simps(2))
    moreover have "fst x \<noteq> 4" using False by (simp add: is_clip_def)
    ultimately show ?thesis
      using False by (simp add: clip_loop_inseq soft_lengths_def last_or_def)
  qed
qed

lemma clip_start_simps:
  "newcigar clip_start = []" "clip_5 clip_start = 0" "clip_3 clip_start = 0"
  "\<not> changed clip_start" "\<not> inseq clip_start"
  by (simp_all add: clip_start_def)

lemma clip_scan_newcigar:
  "newcigar (clip_loop cg clip_start) = filter (\<lambda>x. \<not> is_clip x) cg"
  by (simp add: clip_loop_newcigar clip_start_simps)

lemma clip_scan_changed:
  "changed (clip_loop cg clip_start) \<longleftrightarrow> (\<exists>x \<in> set cg. is_clip x)"
  by (simp add: clip_loop_changed clip_start_simps)

lemma clip_scan_clip_5:
  "clip_5 (clip_loop cg clip_start) = last_or 0 (soft_lengths (takeWhile is_clip cg))"
  using clip_loop_clips [of clip_start cg] by (simp add: clip_start_simps)

lemma clip_scan_clip_3:
  "clip_3 (clip_loop cg clip_start) = last_or 0 (soft_lengths (dropWhile is_clip cg))"
  using clip_loop_clips [of clip_start cg] by (simp add: clip_start_simps)

lemma slice_upto_back_eq:
  "a + b \<le> length s \<Longrightarrow> slice_upto_back a b s = take (length s - (a + b)) (drop a s)"
  by (auto simp: slice_upto_back_def Let_def min_def add.commute)

lemma length_slice_upto_back:
  "length (slice_upto_back a b s) = length s - (a + b)"
  by (auto simp: slice_upto_back_def Let_def min_def)

lemma soft_lengths_split:
  "soft_lengths cg = soft_lengths (takeWhile is_clip cg) @ soft_lengths (dropWhile is_clip cg)"
  unfolding soft_lengths_def map_append [symmetric] filter_append [symmetric]
    takeWhile_dropWhile_id ..

lemma last_less_sum:
  "\<forall>n \<in> set xs. 0 < n \<Longrightarrow> 2 \<le> length xs \<Longrightarrow> last xs < sum_list (xs :: nat list)"
proof (induction xs)
  case Nil
  then show ?case by simp
next
  case (Cons x xs)
  show ?case
  proof (cases xs)
    case Nil
    with Cons.prems show ?thesis by simp
  next
    case (Cons y ys)
    show ?thesis
    proof (cases ys)
      case Nil
      with Cons Cons.prems show ?thesis by simp
    next
      case (Cons z zs)
      with \<open>xs = y # ys\<close> Cons.IH Cons.prems show ?thesis by simp
    qed
  qed
qed

lemma last_or_le_sum: "last_or 0 xs \<le> sum_list xs"
  by (induction xs) (auto simp: last_or_def)

lemma last_or_short: "length xs \<le> 1 \<Longrightarrow> last_or 0 xs = sum_list xs"
  by (cases xs) (auto simp: last_or_def)

lemma last_or_less_sum:
  "\<forall>n \<in> set xs. 0 < n \<Longrightarrow> 2 \<le> length xs \<Longrightarrow> last_or 0 xs < sum_list xs"
  using last_less_sum [of xs] by (auto simp: last_or_def)

lemma retained_not_clip:
  "\<forall>x \<in> set mid. fst x \<noteq> 4 \<and> fst x \<noteq> 5 \<Longrightarrow> filter (\<lambda>x. \<not> is_clip x) mid = mid"
  by (induction mid) (auto simp: is_clip_def)

lemma retained_no_soft:
  "\<forall>x \<in> set mid. fst x \<noteq> 4 \<and> fst x \<noteq> 5 \<Longrightarrow> soft_lengths mid = []"
  by (induction mid) (auto simp: soft_lengths_def)

lemma clip_scan_5_3:
  assumes "mid \<noteq> []" and "\<forall>x \<in> set mid. fst x \<noteq> 4 \<and> fst x \<noteq> 5"
  shows "clip_loop ((4, 5) # mid @ [(4, 3)]) clip_start =
           \<lparr>newcigar = mid, clip_5 = 5, clip_3 = 3, changed = True, inseq = True\<rparr>"
proof -
  let ?cg = "(4, 5) # mid @ [(4, 3)]"
  obtain m ms where mid: "mid = m # ms" using assms(1) by (cases mid) auto
  have m: "\<not> is_clip m" using assms(2) mid by (simp add: is_clip_def)
  have tw: "takeWhile is_clip ?cg = [(4, 5)]"
    using m by (simp add: mid is_clip_def)
  have dw: "dropWhile is_clip ?cg = mid @ [(4, 3)]"
    using m by (simp add: mid is_clip_def)
  have c5: "clip_5 (clip_loop ?cg clip_start) = 5"
    unfolding clip_scan_clip_5 tw by (simp add: soft_lengths_def last_or_def)
  have c3: "clip_3 (clip_loop ?cg clip_start) = 3"
    unfolding clip_scan_clip_3 dw using retained_no_soft [OF assms(2)]
    by (simp add: soft_lengths_def last_or_def)
  have nc: "newcigar (clip_loop ?cg clip_start) = mid"
    unfolding clip_scan_newcigar using retained_not_clip [OF assms(2)]
    by (simp add: is_clip_def)
  have ch: "changed (clip_loop ?cg clip_start)"
    unfolding clip_scan_changed by (simp add: is_clip_def)
  have "inseq (clip_loop cg st) \<longleftrightarrow> inseq st \<or> (\<exists>x \<in> set cg. \<not> is_clip x)" for cg st
    by (induction cg arbitrary: st)
      (auto simp add: clip_loop_step is_clip_def simp del: clip_loop.simps(2))
  then have ins: "inseq (clip_loop ?cg clip_start)"
    using m mid by auto
  show ?thesis
    using c5 c3 nc ch ins by (cases "clip_loop ?cg clip_start") simp
qed

lemma removeclipping_read_empty_seq:
  "\<not> is_unmapped rd \<Longrightarrow> changed (clip_loop (cigar rd) clip_start) \<Longrightarrow> seq rd = [] \<Longrightarrow>
     removeclipping_read rd = Inl ZeroDivisionError"
  by (simp add: removeclipping_read_def Let_def)

text \<open>
  Claim C4. A mapped record whose cigar is a soft clip of 5, retained operations, and a
  soft clip of 3, over a sequence and a quality string of length \<open>L\<close> (the 8 clipped
  bases are part of the sequence, so \<open>8 \<le> L\<close>), comes out with the retained operations
  as its cigar, the first 5 and the last 3 characters of both strings removed, hence length
  \<open>L - 5 - 3\<close>, and the tags ZA = 5, ZB = 3, ZC = 8 / L appended. And whenever the record
  is altered with \<open>clip_3 = 0\<close>, only the first \<open>clip_5\<close> characters are removed.
\<close>

theorem removeclipping_soft_5_3:
  "(\<not> is_unmapped rd \<and> cigar rd = (4, 5) # mid @ [(4, 3)] \<and> mid \<noteq> [] \<and>
    (\<forall>x \<in> set mid. fst x \<noteq> 4 \<and> fst x \<noteq> 5) \<and>
    length (seq rd) = L \<and> length (qual rd) = L \<and> 5 + 3 \<le> L \<longrightarrow>
      removeclipping_read rd =
        Inr (rd\<lparr>cigar := mid,
                seq := take (L - 8) (drop 5 (seq rd)),
                qual := take (L - 8) (drop 5 (qual rd)),
                tags := tags rd @ [(''ZA'', VInt 5), (''ZB'', VInt 3), (''ZC'', VFloat (8 / of_nat L))]\<rparr>,
             True) \<and>
      int (length (take (L - 8) (drop 5 (seq rd)))) = int L - 5 - 3 \<and>
      seq rd = take 5 (seq rd) @ take (L - 8) (drop 5 (seq rd)) @ drop (L - 3) (seq rd)) \<and>
   (\<not> is_unmapped rd \<and> changed (clip_loop (cigar rd) clip_start) \<and>
    clip_3 (clip_loop (cigar rd) clip_start) = 0 \<and> seq rd \<noteq> [] \<longrightarrow>
      removeclipping_read rd =
        Inr (rd\<lparr>cigar := newcigar (clip_loop (cigar rd) clip_start),
                seq := drop (clip_5 (clip_loop (cigar rd) clip_start)) (seq rd),
                qual := drop (clip_5 (clip_loop (cigar rd) clip_start)) (qual rd),
                tags := tags rd
                  @ (if clip_5 (clip_loop (cigar rd) clip_start) \<noteq> 0
                     then [(''ZA'', VInt (int (clip_5 (clip_loop (cigar rd) clip_start))))] else [])
                  @ [(''ZC'', VFloat (of_nat (clip_5 (clip_loop (cigar rd) clip_start))
                                       / of_nat (length (seq rd))))]\<rparr>,
             True))"
proof (intro conjI impI)
  assume h: "\<not> is_unmapped rd \<and> cigar rd = (4, 5) # mid @ [(4, 3)] \<and> mid \<noteq> [] \<and>
    (\<forall>x \<in> set mid. fst x \<noteq> 4 \<and> fst x \<noteq> 5) \<and>
    length (seq rd) = L \<and> length (qual rd) = L \<and> 5 + 3 \<le> L"
  then have st: "clip_loop (cigar rd) clip_start =
      \<lparr>newcigar = mid, clip_5 = 5, clip_3 = 3, changed = True, inseq = True\<rparr>"
    using clip_scan_5_3 [of mid] by simp
  have s: "slice_upto_back 5 3 (seq rd) = take (L - 8) (drop 5 (seq rd))"
    using h slice_upto_back_eq [of 5 3 "seq rd"] by simp
  have q: "slice_upto_back 5 3 (qual rd) = take (L - 8) (drop 5 (qual rd))"
    using h slice_upto_back_eq [of 5 3 "qual rd"] by simp
  from h have L: "L \<noteq> 0" by auto
  show "removeclipping_read rd =
        Inr (rd\<lparr>cigar := mid,
                seq := take (L - 8) (drop 5 (seq rd)),
                qual := take (L - 8) (drop 5 (qual rd)),
                tags := tags rd @ [(''ZA'', VInt 5), (''ZB'', VInt 3), (''ZC'', VFloat (8 / of_nat L))]\<rparr>,
             True)"
  proof -
    from h have m: "\<not> is_unmapped rd" and len: "length (seq rd) = L" by simp_all
    show ?thesis
      unfolding removeclipping_read_def Let_def st
      using m L by (simp add: len s q)
  qed
  show "int (length (take (L - 8) (drop 5 (seq rd)))) = int L - 5 - 3"
    using h by auto
  have "seq rd = take 5 (seq rd) @ drop 5 (seq rd)" by simp
  moreover have "drop 5 (seq rd) = take (L - 8) (drop 5 (seq rd)) @ drop (L - 8) (drop 5 (seq rd))"
    by (rule append_take_drop_id [symmetric])
  moreover have "drop (L - 8) (drop 5 (seq rd)) = drop (L - 3) (seq rd)"
  proof -
    from h have "L - 8 + 5 = L - 3" by arith
    then show ?thesis by simp
  qed
  ultimately show "seq rd = take 5 (seq rd) @ take (L - 8) (drop 5 (seq rd)) @ drop (L - 3) (seq rd)"
    by metis
next
  assume h: "\<not> is_unmapped rd \<and> changed (clip_loop (cigar rd) clip_start) \<and>
    clip_3 (clip_loop (cigar rd) clip_start) = 0 \<and> seq rd \<noteq> []"
  then show "removeclipping_read rd =
        Inr (rd\<lparr>cigar := newcigar (clip_loop (cigar rd) clip_start),
                seq := drop (clip_5 (clip_loop (cigar rd) clip_start)) (seq rd),
                qual := drop (clip_5 (clip_loop (cigar rd) clip_start)) (qual rd),
                tags := tags rd
                  @ (if clip_5 (clip_loop (cigar rd) clip_start) \<noteq> 0
                     then [(''ZA'', VInt (int (clip_5 (clip_loop (cigar rd) clip_start))))] else [])
                  @ [(''ZC'', VFloat (of_nat (clip_5 (clip_loop (cigar rd) clip_start))
                                       / of_nat (length (seq rd))))]\<rparr>,
             True)"
    by (simp add: removeclipping_read_def Let_def slice_from_def)
qed

theorem removeclipping_soft_5_3_witness:
  "removeclipping_read
     \<lparr>qname = ''r1'', flag = 0, is_unmapped = False, is_reverse = False, rname = ''chr1'',
      pos = 100, mapq = 30, cigar = [(4, 5), (0, 4), (4, 3)],
      seq = ''AAAAACGTGTTT'', qual = ''IIIIIJJJJKKK'', tags = [(''NM'', VInt 0)]\<rparr>
   = Inr (\<lparr>qname = ''r1'', flag = 0, is_unmapped = False, is_reverse = False, rname = ''chr1'',
      pos = 100, mapq = 30, cigar = [(0, 4)],
      seq = ''CGTG'', qual = ''JJJJ'',
      tags = [(''NM'', VInt 0), (''ZA'', VInt 5), (''ZB'', VInt 3), (''ZC'', VFloat (2 / 3))]\<rparr>, True) \<and>
   removeclipping_read
     \<lparr>qname = ''r2'', flag = 0, is_unmapped = False, is_reverse = False, rname = ''chr1'',
      pos = 100, mapq = 30, cigar = [(4, 2), (0, 4)],
      seq = ''AACGTG'', qual = ''IIJJJJ'', tags = []\<rparr>
   = Inr (\<lparr>qname = ''r2'', flag = 0, is_unmapped = False, is_reverse = False, rname = ''chr1'',
      pos = 100, mapq = 30, cigar = [(0, 4)],
      seq = ''CGTG'', qual = ''JJJJ'',
      tags = [(''ZA'', VInt 2), (''ZC'', VFloat (1 / 3))]\<rparr>, True)"
  using
    removeclipping_soft_5_3 [of
      "\<lparr>qname = ''r1'', flag = 0, is_unmapped = False, is_reverse = False, rname = ''chr1'',
      pos = 100, mapq = 30, cigar = [(4, 5), (0, 4), (4, 3)],
      seq = ''AAAAACGTGTTT'', qual = ''IIIIIJJJJKKK'', tags = [(''NM'', VInt 0)]\<rparr>" "[(0, 4)]" 12]
    removeclipping_soft_5_3 [of
      "\<lparr>qname = ''r2'', flag = 0, is_unmapped = False, is_reverse = False, rname = ''chr1'',
      pos = 100, mapq = 30, cigar = [(4, 2), (0, 4)],
      seq = ''AACGTG'', qual = ''IIJJJJ'', tags = []\<rparr>" "[]" 0]
  by (simp add: clip_start_def)

lemma removeclipping_read_no_clip:
  assumes "\<forall>x \<in> set (cigar rd). fst x \<noteq> 4 \<and> fst x \<noteq> 5"
  shows "removeclipping_read rd = Inr (rd, False)"
proof -
  from assms have "\<not> changed (clip_loop (cigar rd) clip_start)"
    unfolding clip_scan_changed by (auto simp: is_clip_def)
  then show ?thesis by (simp add: removeclipping_read_def Let_def)
qed

lemma removeclipping_read_unmapped:
  "is_unmapped rd \<Longrightarrow> removeclipping_read rd = Inr (rd, False)"
  by (simp add: removeclipping_read_def)

lemma removeclipping_read_result:
  assumes "removeclipping_read rd = Inr (rd', ch)"
  shows "is_unmapped rd' \<or> (\<forall>x \<in> set (cigar rd'). fst x \<noteq> 4 \<and> fst x \<noteq> 5)"
proof (cases "is_unmapped rd")
  case True
  with assms show ?thesis by (simp add: removeclipping_read_def)
next
  case False
  show ?thesis
  proof (cases "changed (clip_loop (cigar rd) clip_start)")
    case True
    with False assms have "cigar rd' = newcigar (clip_loop (cigar rd) clip_start)"
      by (auto simp: removeclipping_read_def Let_def split: if_splits)
    then show ?thesis
      unfolding clip_scan_newcigar by (auto simp: is_clip_def)
  next
    case nch: False
    with False assms have "rd' = rd" by (simp add: removeclipping_read_def Let_def)
    moreover from nch have "\<forall>x \<in> set (cigar rd). fst x \<noteq> 4 \<and> fst x \<noteq> 5"
      unfolding clip_scan_changed by (auto simp: is_clip_def)
    ultimately show ?thesis by simp
  qed
qed

text \<open>
  Claim C5. On a mapped record whose cigar has no soft clip (4) and no hard clip (5), the
  transform sets no \<open>changed\<close> flag and returns the record itself: cigar, sequence,
  quality and tags as they were, no ZA, ZB or ZC appended. Hence a second pass is the
  identity: whatever record the transform returns, it returns that record unaltered.
\<close>

theorem removeclipping_idempotent:
  "(\<not> is_unmapped rd \<and> (\<forall>x \<in> set (cigar rd). fst x \<noteq> 4 \<and> fst x \<noteq> 5) \<longrightarrow>
      \<not> changed (clip_loop (cigar rd) clip_start) \<and> removeclipping_read rd = Inr (rd, False)) \<and>
   (removeclipping_read rd = Inr (rd', ch) \<longrightarrow> removeclipping_read rd' = Inr (rd', False))"
proof (intro conjI impI)
  assume h: "\<not> is_unmapped rd \<and> (\<forall>x \<in> set (cigar rd). fst x \<noteq> 4 \<and> fst x \<noteq> 5)"
  then show "\<not> changed (clip_loop (cigar rd) clip_start)"
    unfolding clip_scan_changed by (auto simp: is_clip_def)
  from h show "removeclipping_read rd = Inr (rd, False)"
    by (simp add: removeclipping_read_no_clip)
next
  assume "removeclipping_read rd = Inr (rd', ch)"
  then have "is_unmapped rd' \<or> (\<forall>x \<in> set (cigar rd'). fst x \<noteq> 4 \<and> fst x \<noteq> 5)"
    by (rule removeclipping_read_result)
  then show "removeclipping_read rd' = Inr (rd', False)"
    using removeclipping_read_unmapped removeclipping_read_no_clip by blast
qed

theorem removeclipping_idempotent_witness:
  "removeclipping_read
     \<lparr>qname = ''r1'', flag = 0, is_unmapped = False, is_reverse = False, rname = ''chr1'',
      pos = 100, mapq = 30, cigar = [(0, 4), (1, 1), (0, 3)],
      seq = ''ACGTACGT'', qual = ''IIIIJJJJ'', tags = [(''NM'', VInt 0)]\<rparr>
   = Inr (\<lparr>qname = ''r1'', flag = 0, is_unmapped = False, is_reverse = False, rname = ''chr1'',
      pos = 100, mapq = 30, cigar = [(0, 4), (1, 1), (0, 3)],
      seq = ''ACGTACGT'', qual = ''IIIIJJJJ'', tags = [(''NM'', VInt 0)]\<rparr>, False) \<and>
   removeclipping_read
     \<lparr>qname = ''r2'', flag = 0, is_unmapped = False, is_reverse = False, rname = ''chr1'',
      pos = 100, mapq = 30, cigar = [(0, 4)],
      seq = ''CGTG'', qual = ''JJJJ'',
      tags = [(''ZA'', VInt 2), (''ZC'', VFloat (1 / 3))]\<rparr>
   = Inr (\<lparr>qname = ''r2'', flag = 0, is_unmapped = False, is_reverse = False, rname = ''chr1'',
      pos = 100, mapq = 30, cigar = [(0, 4)],
      seq = ''CGTG'', qual = ''JJJJ'',
      tags = [(''ZA'', VInt 2), (''ZC'', VFloat (1 / 3))]\<rparr>, False)"
proof -
  have run: "removeclipping_read
     \<lparr>qname = ''r2'', flag = 0, is_unmapped = False, is_reverse = False, rname = ''chr1'',
      pos = 100, mapq = 30, cigar = [(4, 2), (0, 4)],
      seq = ''AACGTG'', qual = ''IIJJJJ'', tags = []\<rparr>
   = Inr (\<lparr>qname = ''r2'', flag = 0, is_unmapped = False, is_reverse = False, rname = ''chr1'',
      pos = 100, mapq = 30, cigar = [(0, 4)],
      seq = ''CGTG'', qual = ''JJJJ'',
      tags = [(''ZA'', VInt 2), (''ZC'', VFloat (1 / 3))]\<rparr>, True)"
    by (simp add: removeclipping_read_def clip_start_def Let_def slice_from_def)
  show ?thesis
    using
      removeclipping_idempotent [of
        "\<lparr>qname = ''r1'', flag = 0, is_unmapped = False, is_reverse = False, rname = ''chr1'',
          pos = 100, mapq = 30, cigar = [(0, 4), (1, 1), (0, 3)],
          seq = ''ACGTACGT'', qual = ''IIIIJJJJ'', tags = [(''NM'', VInt 0)]\<rparr>"]
      removeclipping_idempotent [THEN conjunct2, rule_format, OF run]
    by simp
qed

lemma removeclipping_read_changed:
  assumes "\<not> is_unmapped rd" "changed (clip_loop (cigar rd) clip_start)" "seq rd \<noteq> []"
  shows "\<exists>rd'. removeclipping_read rd = Inr (rd', True) \<and>
     length (seq rd') = length (seq rd)
        - (clip_5 (clip_loop (cigar rd) clip_start) + clip_3 (clip_loop (cigar rd) clip_start)) \<and>
     filter (\<lambda>t. fst t = ''ZA'') (tags rd') = filter (\<lambda>t. fst t = ''ZA'') (tags rd)
        @ (if clip_5 (clip_loop (cigar rd) clip_start) \<noteq> 0
           then [(''ZA'', VInt (int (clip_5 (clip_loop (cigar rd) clip_start))))] else [])"
  using assms
  by (simp add: removeclipping_read_def Let_def slice_from_def length_slice_upto_back)

text \<open>
  Claim C10, amended. \<open>clip_5\<close> is the length of the last soft clip before the first
  retained operation and \<open>clip_3\<close> that of the last soft clip after it (0 when there is
  none): assigned, not accumulated. So for a mapped record with a sequence, whose soft
  clips all have positive length and are two or more on one side, ZA holds the last length
  only and fewer bases are removed than were soft-clipped. With at most one soft clip on
  each side the two recorded lengths add up to the total; for soft clips of positive
  length, only then.
\<close>

theorem clip_lengths_assigned:
  "clip_5 (clip_loop cg clip_start) = last_or 0 (soft_lengths (takeWhile is_clip cg)) \<and>
   clip_3 (clip_loop cg clip_start) = last_or 0 (soft_lengths (dropWhile is_clip cg)) \<and>
   ((\<forall>n \<in> set (soft_lengths cg). 0 < n) \<and>
    (2 \<le> length (soft_lengths (takeWhile is_clip cg)) \<or>
     2 \<le> length (soft_lengths (dropWhile is_clip cg))) \<and>
    \<not> is_unmapped rd \<and> cigar rd = cg \<and> seq rd \<noteq> [] \<longrightarrow>
      (\<exists>rd'. removeclipping_read rd = Inr (rd', True) \<and>
         (2 \<le> length (soft_lengths (takeWhile is_clip cg)) \<longrightarrow>
            filter (\<lambda>t. fst t = ''ZA'') (tags rd') = filter (\<lambda>t. fst t = ''ZA'') (tags rd)
              @ [(''ZA'', VInt (int (last (soft_lengths (takeWhile is_clip cg)))))]) \<and>
         length (seq rd') \<le> length (seq rd) \<and>
         length (seq rd) - length (seq rd') < sum_list (soft_lengths cg))) \<and>
   (length (soft_lengths (takeWhile is_clip cg)) \<le> 1 \<and>
    length (soft_lengths (dropWhile is_clip cg)) \<le> 1 \<longrightarrow>
      clip_5 (clip_loop cg clip_start) + clip_3 (clip_loop cg clip_start)
        = sum_list (soft_lengths cg)) \<and>
   ((\<forall>n \<in> set (soft_lengths cg). 0 < n) \<and>
    clip_5 (clip_loop cg clip_start) + clip_3 (clip_loop cg clip_start)
        = sum_list (soft_lengths cg) \<longrightarrow>
      length (soft_lengths (takeWhile is_clip cg)) \<le> 1 \<and>
      length (soft_lengths (dropWhile is_clip cg)) \<le> 1)"
proof -
  let ?pre = "soft_lengths (takeWhile is_clip cg)"
  let ?post = "soft_lengths (dropWhile is_clip cg)"
  let ?c5 = "clip_5 (clip_loop cg clip_start)"
  let ?c3 = "clip_3 (clip_loop cg clip_start)"
  have c5: "?c5 = last_or 0 ?pre" by (rule clip_scan_clip_5)
  have c3: "?c3 = last_or 0 ?post" by (rule clip_scan_clip_3)
  have total: "sum_list (soft_lengths cg) = sum_list ?pre + sum_list ?post"
    by (subst soft_lengths_split) simp
  have set_split: "set (soft_lengths cg) = set ?pre \<union> set ?post"
    by (subst soft_lengths_split) simp
  have le5: "?c5 \<le> sum_list ?pre" unfolding c5 by (rule last_or_le_sum)
  have le3: "?c3 \<le> sum_list ?post" unfolding c3 by (rule last_or_le_sum)
  have less: "?c5 + ?c3 < sum_list (soft_lengths cg)"
    if pos: "\<forall>n \<in> set (soft_lengths cg). 0 < n" and two: "2 \<le> length ?pre \<or> 2 \<le> length ?post"
  proof -
    from two show ?thesis
    proof
      assume "2 \<le> length ?pre"
      with pos have "?c5 < sum_list ?pre"
        unfolding c5 set_split by (intro last_or_less_sum) auto
      with le3 show ?thesis unfolding total by simp
    next
      assume "2 \<le> length ?post"
      with pos have "?c3 < sum_list ?post"
        unfolding c3 set_split by (intro last_or_less_sum) auto
      with le5 show ?thesis unfolding total by simp
    qed
  qed
  have part_b: "\<exists>rd'. removeclipping_read rd = Inr (rd', True) \<and>
         (2 \<le> length ?pre \<longrightarrow>
            filter (\<lambda>t. fst t = ''ZA'') (tags rd') = filter (\<lambda>t. fst t = ''ZA'') (tags rd)
              @ [(''ZA'', VInt (int (last ?pre)))]) \<and>
         length (seq rd') \<le> length (seq rd) \<and>
         length (seq rd) - length (seq rd') < sum_list (soft_lengths cg)"
    if h: "(\<forall>n \<in> set (soft_lengths cg). 0 < n) \<and> (2 \<le> length ?pre \<or> 2 \<le> length ?post) \<and>
        \<not> is_unmapped rd \<and> cigar rd = cg \<and> seq rd \<noteq> []"
  proof -
    from h have lt: "?c5 + ?c3 < sum_list (soft_lengths cg)" by (intro less) auto
    from h have "soft_lengths cg \<noteq> []" unfolding soft_lengths_split [of cg] by auto
    then have "\<exists>x \<in> set cg. is_clip x"
      by (auto simp: soft_lengths_def is_clip_def filter_empty_conv)
    then have ch: "changed (clip_loop (cigar rd) clip_start)"
      using h by (simp add: clip_scan_changed)
    from h have cg: "cigar rd = cg" by simp
    from removeclipping_read_changed [OF _ ch] h
    obtain rd' where r: "removeclipping_read rd = Inr (rd', True)"
      and len: "length (seq rd') = length (seq rd) - (?c5 + ?c3)"
      and za: "filter (\<lambda>t. fst t = ''ZA'') (tags rd') = filter (\<lambda>t. fst t = ''ZA'') (tags rd)
        @ (if ?c5 \<noteq> 0 then [(''ZA'', VInt (int ?c5))] else [])"
      unfolding cg by blast
    have "filter (\<lambda>t. fst t = ''ZA'') (tags rd') = filter (\<lambda>t. fst t = ''ZA'') (tags rd)
              @ [(''ZA'', VInt (int (last ?pre)))]" if two: "2 \<le> length ?pre"
    proof -
      from two have ne: "?pre \<noteq> []" by auto
      then have "last ?pre \<in> set ?pre" by simp
      with h have "0 < last ?pre" unfolding set_split by auto
      with ne have "?c5 = last ?pre" "?c5 \<noteq> 0" unfolding c5 by (simp_all add: last_or_def)
      with za show ?thesis by simp
    qed
    moreover have "length (seq rd') \<le> length (seq rd)" using len by simp
    moreover have "length (seq rd) - length (seq rd') < sum_list (soft_lengths cg)"
      using len lt by arith
    ultimately show ?thesis using r by blast
  qed
  have part_c: "?c5 + ?c3 = sum_list (soft_lengths cg)"
    if "length ?pre \<le> 1 \<and> length ?post \<le> 1"
    using that unfolding total c5 c3 by (simp add: last_or_short)
  have part_d: "length ?pre \<le> 1 \<and> length ?post \<le> 1"
    if h: "(\<forall>n \<in> set (soft_lengths cg). 0 < n) \<and> ?c5 + ?c3 = sum_list (soft_lengths cg)"
  proof (rule ccontr)
    assume "\<not> (length ?pre \<le> 1 \<and> length ?post \<le> 1)"
    then have "2 \<le> length ?pre \<or> 2 \<le> length ?post" by arith
    with h have "?c5 + ?c3 < sum_list (soft_lengths cg)" by (intro less) auto
    with h show False by simp
  qed
  show ?thesis
    using c5 c3 part_b part_c part_d by blast
qed

theorem clip_lengths_assigned_witness:
  "clip_5 (clip_loop [(4, 2), (4, 3), (0, 5)] clip_start) = 3 \<and>
   clip_3 (clip_loop [(4, 2), (4, 3), (0, 5)] clip_start) = 0 \<and>
   (\<exists>rd'. removeclipping_read
        \<lparr>qname = ''r1'', flag = 0, is_unmapped = False, is_reverse = False, rname = ''chr1'',
         pos = 100, mapq = 30, cigar = [(4, 2), (4, 3), (0, 5)],
         seq = ''AACCCGTGTA'', qual = ''IIJJJKKKKK'', tags = []\<rparr> = Inr (rd', True) \<and>
      filter (\<lambda>t. fst t = ''ZA'') (tags rd') = [(''ZA'', VInt 3)] \<and>
      length (seq rd') \<le> length ''AACCCGTGTA'' \<and>
      length ''AACCCGTGTA'' - length (seq rd') < 5) \<and>
   clip_5 (clip_loop [(4, 2), (0, 5), (4, 3)] clip_start)
     + clip_3 (clip_loop [(4, 2), (0, 5), (4, 3)] clip_start) = 5 \<and>
   length (soft_lengths (takeWhile is_clip [(4, 2), (0, 5), (4, 3)])) \<le> 1 \<and>
   length (soft_lengths (dropWhile is_clip [(4, 2), (0, 5), (4, 3)])) \<le> 1"
  using
    clip_lengths_assigned [of "[(4, 2), (4, 3), (0, 5)]"
      "\<lparr>qname = ''r1'', flag = 0, is_unmapped = False, is_reverse = False, rname = ''chr1'',
         pos = 100, mapq = 30, cigar = [(4, 2), (4, 3), (0, 5)],
         seq = ''AACCCGTGTA'', qual = ''IIJJJKKKKK'', tags = []\<rparr>"]
    clip_lengths_assigned [of "[(4, 2), (0, 5), (4, 3)]"
      "\<lparr>qname = ''r1'', flag = 0, is_unmapped = False, is_reverse = False, rname = ''chr1'',
         pos = 100, mapq = 30, cigar = [(4, 2), (0, 5), (4, 3)],
         seq = ''AACCCGTGTA'', qual = ''IIJJJKKKKK'', tags = []\<rparr>"]
  by (simp add: soft_lengths_def is_clip_def last_or_def clip_start_def)

text \<open>
  Claim C10 as it was stated fails on a soft clip of length 0: the cigar S0 S5 M3 has two
  soft clips before the first retained operation, yet the recorded length 5 is the total
  soft-clipped length, and the 5 bases removed are not fewer than that total.
\<close>

theorem clip_lengths_zero_length_counterexample:
  "\<not> (length (soft_lengths (takeWhile is_clip [(4, 0), (4, 5), (0, 3)])) \<le> 1) \<and>
   clip_5 (clip_loop [(4, 0), (4, 5), (0, 3)] clip_start)
     + clip_3 (clip_loop [(4, 0), (4, 5), (0, 3)] clip_start)
     = sum_list (soft_lengths [(4, 0), (4, 5), (0, 3)]) \<and>
   removeclipping_read
     \<lparr>qname = ''r1'', flag = 0, is_unmapped = False, is_reverse = False, rname = ''chr1'',
      pos = 100, mapq = 30, cigar = [(4, 0), (4, 5), (0, 3)],
      seq = ''AAAAACGT'', qual = ''IIIIIJJJ'', tags = []\<rparr>
   = Inr (\<lparr>qname = ''r1'', flag = 0, is_unmapped = False, is_reverse = False, rname = ''chr1'',
      pos = 100, mapq = 30, cigar = [(0, 3)],
      seq = ''CGT'', qual = ''JJJ'',
      tags = [(''ZA'', VInt 5), (''ZC'', VFloat (5 / 8))]\<rparr>, True) \<and>
   \<not> (length ''AAAAACGT'' - length ''CGT'' < sum_list (soft_lengths [(4, 0), (4, 5), (0, 3)]))"
  by (simp add: soft_lengths_def is_clip_def clip_start_def removeclipping_read_def Let_def
      slice_from_def)

section \<open>Facts about FeatureBin\<close>

lemma py_add_mul_numeric:
  assumes "py_num acc = Some a" "py_num k = Some x"
  shows "\<exists>acc'. py_add acc (py_mul k c) = Inr acc' \<and> py_num acc' = Some (a + x * of_int c)"
  using assms by (cases acc; cases k) auto

lemma py_add_mul_string:
  assumes "py_num acc = Some a" "py_num k = None"
  shows "py_add acc (py_mul k c) = Inl TypeError"
  using assms by (cases acc; cases k) auto

lemma mean_loop_string:
  "py_num acc = Some a \<Longrightarrow> \<exists>kc \<in> set l. py_num (fst kc) = None \<Longrightarrow>
     mean_loop l acc n = Inl (VInt 0)"
proof (induction l arbitrary: acc a n)
  case Nil
  then show ?case by simp
next
  case (Cons kc l)
  obtain k c where kc: "kc = (k, c)" by (cases kc) auto
  show ?case
  proof (cases "py_num k")
    case None
    with Cons.prems(1) show ?thesis
      by (simp add: kc py_add_mul_string)
  next
    case (Some x)
    with Cons.prems(1) obtain acc' where
      a: "py_add acc (py_mul k c) = Inr acc'" and n: "py_num acc' = Some (a + x * of_int c)"
      using py_add_mul_numeric by blast
    from Cons.prems(2) Some have "\<exists>kc \<in> set l. py_num (fst kc) = None"
      by (auto simp: kc)
    with Cons.IH [OF n] show ?thesis by (simp add: kc a)
  qed
qed

lemma mean_loop_numeric:
  "py_num acc = Some a \<Longrightarrow> \<forall>kc \<in> set l. py_num (fst kc) \<noteq> None \<Longrightarrow>
     \<exists>acc'. mean_loop l acc n = Inr (acc', n + sum_list (map snd l)) \<and>
       py_num acc' = Some (a + sum_list (map (\<lambda>kc. num_val (fst kc) * of_int (snd kc)) l))"
proof (induction l arbitrary: acc a n)
  case Nil
  then show ?case by simp
next
  case (Cons kc l)
  obtain k c where kc: "kc = (k, c)" by (cases kc) auto
  from Cons.prems(2) obtain x where x: "py_num k = Some x" by (auto simp: kc)
  with Cons.prems(1) obtain acc' where
    a: "py_add acc (py_mul k c) = Inr acc'" and n: "py_num acc' = Some (a + x * of_int c)"
    using py_add_mul_numeric by blast
  from Cons.prems(2) have "\<forall>kc \<in> set l. py_num (fst kc) \<noteq> None" by simp
  from Cons.IH [OF n this, of "n + c"] show ?case
    by (simp add: kc a x num_val_def add.assoc)
qed

lemma FeatureBin_init_plain:
  "FeatureBin_init ''AS'' =
     \<lparr>tag = ''AS'', asc = True, bins = [], keys_list = [], min_seen = None, max_seen = None,
      cur_pos = -1\<rparr>"
  by (simp add: FeatureBin_init_def Let_def)

lemma dict_set_counts_pos:
  "\<forall>kc \<in> set d. 0 < snd kc \<Longrightarrow> 0 < (v::int) \<Longrightarrow> \<forall>kc \<in> set (dict_set d k v). 0 < snd kc"
  by (induction d) (force split: if_splits)+

lemma dict_get_counts_pos:
  "\<forall>kc \<in> set d. 0 < snd kc \<Longrightarrow> dict_get d k = Some (c::int) \<Longrightarrow> 0 < c"
  by (induction d) (auto split: if_splits)

lemma dict_set_twice: "dict_set (dict_set d k v) k w = dict_set d k w"
proof (induction d)
  case Nil
  then show ?case by (cases k) auto
next
  case (Cons a d)
  then show ?case by (cases a) auto
qed

lemma dict_get_set: "dict_get (dict_set d k v) k = Some v"
proof (induction d)
  case Nil
  then show ?case by (cases k) auto
next
  case (Cons a d)
  then show ?case by (cases a) auto
qed

lemma bins_add_value:
  "bins (add_value fb val) =
     dict_set (bins fb) val ((case dict_get (bins fb) val of None \<Rightarrow> 0 | Some c \<Rightarrow> c) + 1)"
  by (auto simp: add_value_def Let_def dict_set_twice dict_get_set split: option.splits)

lemma add_value_counts_pos:
  assumes "\<forall>kc \<in> set (bins fb). 0 < snd kc"
  shows "\<forall>kc \<in> set (bins (add_value fb val)). 0 < snd kc"
proof -
  have "0 < (case dict_get (bins fb) val of None \<Rightarrow> 0 | Some c \<Rightarrow> c) + 1"
    using dict_get_counts_pos [OF assms] by (cases "dict_get (bins fb) val") fastforce+
  then show ?thesis
    unfolding bins_add_value by (rule dict_set_counts_pos [OF assms])
qed

lemma add_values_counts_pos:
  "\<forall>kc \<in> set (bins fb). 0 < snd kc \<Longrightarrow> \<forall>kc \<in> set (bins (add_values fb vals)). 0 < snd kc"
  unfolding add_values_def
proof (induction vals arbitrary: fb)
  case Nil
  then show ?case by simp
next
  case (Cons v vals)
  from Cons.prems have "\<forall>kc \<in> set (bins (add_value fb v)). 0 < snd kc"
    by (rule add_value_counts_pos)
  then show ?case using Cons.IH by simp
qed

lemma bump_Nil:
  "dict_set [] v ((case dict_get [] v of None \<Rightarrow> 0 | Some c \<Rightarrow> c) + 1) = [(v, 1::int)]"
  by simp

lemma bump_Cons:
  "dict_set ((k, c) # d) v ((case dict_get ((k, c) # d) v of None \<Rightarrow> 0 | Some c \<Rightarrow> c) + 1) =
     (if py_eq k v then (k, c + 1) # d
      else (k, c) # dict_set d v ((case dict_get d v of None \<Rightarrow> 0 | Some c \<Rightarrow> c) + (1::int)))"
  by simp

lemma py_eq_num_val: "py_eq k v \<Longrightarrow> num_val k = num_val v"
  by (cases k; cases v) (auto simp: num_val_def)

lemma bump_sums:
  "sum_list (map snd (dict_set d v ((case dict_get d v of None \<Rightarrow> 0 | Some c \<Rightarrow> c) + 1)))
     = sum_list (map snd d) + (1::int) \<and>
   sum_list (map (\<lambda>kc. num_val (fst kc) * of_int (snd kc))
       (dict_set d v ((case dict_get d v of None \<Rightarrow> 0 | Some c \<Rightarrow> c) + 1)))
     = sum_list (map (\<lambda>kc. num_val (fst kc) * of_int (snd kc)) d) + num_val v"
proof (induction d)
  case Nil
  show ?case unfolding bump_Nil by simp
next
  case (Cons kc d)
  obtain k c where kc: "kc = (k, c)" by (cases kc) auto
  show ?case
  proof (cases "py_eq k v")
    case True
    then show ?thesis
      unfolding kc bump_Cons by (simp add: py_eq_num_val algebra_simps)
  next
    case False
    then show ?thesis
      unfolding kc bump_Cons using Cons.IH by simp
  qed
qed

lemma bump_keys:
  "fst ` set (dict_set d v w) \<subseteq> fst ` set d \<union> {v}"
proof (induction d)
  case Nil
  then show ?case by simp
next
  case (Cons kc d)
  obtain k c where kc: "kc = (k, c)" by (cases kc) auto
  show ?case unfolding kc using Cons.IH by auto
qed

lemma add_values_sums:
  "sum_list (map snd (bins (add_values fb vals))) = sum_list (map snd (bins fb)) + int (length vals) \<and>
   sum_list (map (\<lambda>kc. num_val (fst kc) * of_int (snd kc)) (bins (add_values fb vals)))
     = sum_list (map (\<lambda>kc. num_val (fst kc) * of_int (snd kc)) (bins fb))
       + sum_list (map num_val vals) \<and>
   fst ` set (bins (add_values fb vals)) \<subseteq> fst ` set (bins fb) \<union> set vals"
proof (induction vals arbitrary: fb)
  case Nil
  then show ?case by (simp add: add_values_def)
next
  case (Cons v vals)
  have step: "add_values fb (v # vals) = add_values (add_value fb v) vals"
    by (simp add: add_values_def)
  let ?fb1 = "add_value fb v"
  from bump_keys [of "bins fb" v]
  have k: "fst ` set (bins ?fb1) \<subseteq> fst ` set (bins fb) \<union> {v}"
    unfolding bins_add_value .
  from bump_sums [of "bins fb" v]
  have n1: "sum_list (map snd (bins ?fb1)) = sum_list (map snd (bins fb)) + 1"
    and s1: "sum_list (map (\<lambda>kc. num_val (fst kc) * of_int (snd kc)) (bins ?fb1))
        = sum_list (map (\<lambda>kc. num_val (fst kc) * of_int (snd kc)) (bins fb)) + num_val v"
    unfolding bins_add_value by simp_all
  from Cons.IH [of ?fb1]
  have n2: "sum_list (map snd (bins (add_values ?fb1 vals)))
        = sum_list (map snd (bins ?fb1)) + int (length vals)"
    and s2: "sum_list (map (\<lambda>kc. num_val (fst kc) * of_int (snd kc)) (bins (add_values ?fb1 vals)))
        = sum_list (map (\<lambda>kc. num_val (fst kc) * of_int (snd kc)) (bins ?fb1))
          + sum_list (map num_val vals)"
    and k2: "fst ` set (bins (add_values ?fb1 vals)) \<subseteq> fst ` set (bins ?fb1) \<union> set vals"
    by simp_all
  have "sum_list (map snd (bins (add_values ?fb1 vals)))
      = sum_list (map snd (bins fb)) + int (length (v # vals))"
    unfolding n2 n1 by simp
  moreover have "sum_list (map (\<lambda>kc. num_val (fst kc) * of_int (snd kc)) (bins (add_values ?fb1 vals)))
      = sum_list (map (\<lambda>kc. num_val (fst kc) * of_int (snd kc)) (bins fb))
        + sum_list (map num_val (v # vals))"
    unfolding s2 s1 by simp
  moreover have "fst ` set (bins (add_values ?fb1 vals)) \<subseteq> fst ` set (bins fb) \<union> set (v # vals)"
    using k k2 by (simp only: list.set) blast
  ultimately show ?case unfolding step by (intro conjI)
qed

lemma mean_added_values:
  assumes "vals \<noteq> []" "\<forall>v \<in> set vals. py_num v \<noteq> None"
  shows "mean (add_values (FeatureBin_init tag_arg) vals) =
     Inr (VFloat (sum_list (map num_val vals) / of_nat (length vals)))"
proof -
  let ?fb = "add_values (FeatureBin_init tag_arg) vals"
  have b0: "bins (FeatureBin_init tag_arg) = []" by (simp add: FeatureBin_init_def Let_def)
  from add_values_sums [of "FeatureBin_init tag_arg" vals]
  have n: "sum_list (map snd (bins ?fb)) = int (length vals)"
    and s: "sum_list (map (\<lambda>kc. num_val (fst kc) * of_int (snd kc)) (bins ?fb))
        = sum_list (map num_val vals)"
    and k: "fst ` set (bins ?fb) \<subseteq> set vals"
    unfolding b0 by simp_all
  from k assms(2) have num: "\<forall>kc \<in> set (bins ?fb). py_num (fst kc) \<noteq> None" by auto
  from mean_loop_numeric [of "VInt 0" 0, OF _ num, of 0]
  obtain acc' where
    l: "mean_loop (bins ?fb) (VInt 0) 0 = Inr (acc', sum_list (map snd (bins ?fb)))" and
    a: "py_num acc' = Some (sum_list (map (\<lambda>kc. num_val (fst kc) * of_int (snd kc)) (bins ?fb)))"
    by auto
  from l n have l': "mean_loop (bins ?fb) (VInt 0) 0 = Inr (acc', int (length vals))" by simp
  from a s have a': "py_num acc' = Some (sum_list (map num_val vals))" by simp
  from assms(1) show ?thesis
    by (simp add: mean_def l' a')
qed

text \<open>
  Claim C7 says that \<open>max\<close> is the largest value added, in whatever order. The code
  tests \<open>not self._max\<close> to see whether a maximum is there yet, and that also holds of
  the maximum 0: for the tag AS with the scores 0 and then -5, \<open>max\<close> is -5, while the
  scores -5 and then 0 give 0.
\<close>

theorem max_lost_after_zero:
  "FeatureBin_add calc (FeatureBin_init ''AS'')
     \<lparr>qname = ''r1'', flag = 0, is_unmapped = False, is_reverse = False, rname = ''chr1'',
      pos = 100, mapq = 30, cigar = [(0, 4)], seq = ''ACGT'', qual = ''IIII'',
      tags = [(''AS'', VInt 0)]\<rparr>
     = Inr (add_values (FeatureBin_init ''AS'') [VInt 0]) \<and>
   FeatureBin_add calc (add_values (FeatureBin_init ''AS'') [VInt 0])
     \<lparr>qname = ''r2'', flag = 0, is_unmapped = False, is_reverse = False, rname = ''chr1'',
      pos = 200, mapq = 30, cigar = [(0, 4)], seq = ''ACGA'', qual = ''IIII'',
      tags = [(''AS'', VInt (- 5))]\<rparr>
     = Inr (add_values (FeatureBin_init ''AS'') [VInt 0, VInt (- 5)]) \<and>
   FeatureBin_max (add_values (FeatureBin_init ''AS'') [VInt 0, VInt (- 5)]) = Some (VInt (- 5)) \<and>
   FeatureBin_max (add_values (FeatureBin_init ''AS'') [VInt (- 5), VInt 0]) = Some (VInt 0)"
  by (simp add: FeatureBin_init_plain FeatureBin_add_def read_value_def read_opt_def
      FeatureBin_max_def add_values_def add_value_def Let_def py_not_def)

text \<open>
  Claim C8. If a key of the frequency map is not a number (a string: the product with the
  count is a string, and adding it to the numeric accumulator fails), \<open>mean\<close> returns
  0 and raises nothing. If the map is not empty, all keys are numbers and the counts are
  positive (as \<open>add\<close> leaves them, lemma \<open>add_values_counts_pos\<close>), \<open>mean\<close> returns the
  quotient of the sum of value times count by the sum of the counts. In particular, after
  a non-empty list of numeric values was added to a fresh bin, \<open>mean\<close> is that quotient,
  which is the sum of the values added divided by their number.
\<close>

theorem mean_non_numeric_or_quotient:
  "((\<exists>kc \<in> set (bins fb). py_num (fst kc) = None) \<longrightarrow> mean fb = Inr (VInt 0)) \<and>
   (bins fb \<noteq> [] \<and> (\<forall>kc \<in> set (bins fb). py_num (fst kc) \<noteq> None \<and> 0 < snd kc) \<longrightarrow>
      mean fb = Inr (VFloat (sum_list (map (\<lambda>kc. num_val (fst kc) * of_int (snd kc)) (bins fb))
                             / of_int (sum_list (map snd (bins fb)))))) \<and>
   (vals \<noteq> [] \<and> (\<forall>v \<in> set vals. py_num v \<noteq> None) \<longrightarrow>
      mean (add_values (FeatureBin_init tag_arg) vals) =
        Inr (VFloat
          (sum_list (map (\<lambda>kc. num_val (fst kc) * of_int (snd kc))
               (bins (add_values (FeatureBin_init tag_arg) vals)))
           / of_int (sum_list (map snd (bins (add_values (FeatureBin_init tag_arg) vals)))))) \<and>
      mean (add_values (FeatureBin_init tag_arg) vals) =
        Inr (VFloat (sum_list (map num_val vals) / of_nat (length vals))))"
proof (intro conjI impI)
  assume h: "vals \<noteq> [] \<and> (\<forall>v \<in> set vals. py_num v \<noteq> None)"
  then show m: "mean (add_values (FeatureBin_init tag_arg) vals) =
        Inr (VFloat (sum_list (map num_val vals) / of_nat (length vals)))"
    by (simp add: mean_added_values)
  have "bins (FeatureBin_init tag_arg) = []" by (simp add: FeatureBin_init_def Let_def)
  with add_values_sums [of "FeatureBin_init tag_arg" vals]
  show "mean (add_values (FeatureBin_init tag_arg) vals) =
        Inr (VFloat
          (sum_list (map (\<lambda>kc. num_val (fst kc) * of_int (snd kc))
               (bins (add_values (FeatureBin_init tag_arg) vals)))
           / of_int (sum_list (map snd (bins (add_values (FeatureBin_init tag_arg) vals))))))"
    unfolding m by simp
next
  assume "\<exists>kc \<in> set (bins fb). py_num (fst kc) = None"
  then have "mean_loop (bins fb) (VInt 0) 0 = Inl (VInt 0)"
    by (intro mean_loop_string [of _ 0]) simp_all
  then show "mean fb = Inr (VInt 0)" by (simp add: mean_def)
next
  assume h: "bins fb \<noteq> [] \<and> (\<forall>kc \<in> set (bins fb). py_num (fst kc) \<noteq> None \<and> 0 < snd kc)"
  then have "\<forall>kc \<in> set (bins fb). py_num (fst kc) \<noteq> None" by simp
  from mean_loop_numeric [of "VInt 0" 0, OF _ this, of 0]
  obtain acc' where
    l: "mean_loop (bins fb) (VInt 0) 0 = Inr (acc', sum_list (map snd (bins fb)))" and
    n: "py_num acc' = Some (sum_list (map (\<lambda>kc. num_val (fst kc) * of_int (snd kc)) (bins fb)))"
    by auto
  have "0 < sum_list (map snd l)" if "l \<noteq> []" "\<forall>kc \<in> set l. 0 < snd kc" for l :: "(pyval \<times> int) list"
    using that
  proof (induction l)
    case Nil
    then show ?case by simp
  next
    case (Cons kc l)
    then show ?case by (cases l) (auto simp: add_pos_pos)
  qed
  with h have "sum_list (map snd (bins fb)) \<noteq> 0" by force
  then show "mean fb = Inr (VFloat (sum_list (map (\<lambda>kc. num_val (fst kc) * of_int (snd kc)) (bins fb))
                             / of_int (sum_list (map snd (bins fb)))))"
    by (simp add: mean_def l n)
qed

theorem mean_non_numeric_or_quotient_witness:
  "mean (add_values (FeatureBin_init ''AS'') [VInt 1, VStr ''x'', VInt 2]) = Inr (VInt 0) \<and>
   mean (add_values (FeatureBin_init ''AS'') [VInt 1, VInt 1, VInt 2, VInt 3]) = Inr (VFloat (7 / 4))"
  using
    mean_non_numeric_or_quotient [of "add_values (FeatureBin_init ''AS'') [VInt 1, VStr ''x'', VInt 2]"
      "[VInt 1, VInt 1, VInt 2, VInt 3]" "''AS''"]
    mean_non_numeric_or_quotient [of "add_values (FeatureBin_init ''AS'') [VInt 1, VInt 1, VInt 2, VInt 3]"
      "[VInt 1, VInt 1, VInt 2, VInt 3]" "''AS''"]
  by (simp add: FeatureBin_init_plain add_values_def add_value_def Let_def py_not_def num_val_def)

text \<open>
  Claim C9. On a bin to which nothing was added, \<open>mean\<close> raises ZeroDivisionError: the
  loop body never runs, and the division by \<open>count = 0\<close> is outside the \<open>try\<close>.
\<close>

theorem mean_empty_raises: "mean (FeatureBin_init tag_arg) = Inl ZeroDivisionError"
  by (simp add: mean_def FeatureBin_init_def Let_def)

section \<open>Facts about RegionTagger\<close>

lemma exon_loop_names:
  "name (fst (exon_loop c st l le ei)) = name (fst ei) \<and>
   name (snd (exon_loop c st l le ei)) = name (snd ei)"
proof (induction l arbitrary: le ei)
  case Nil
  then show ?case by (cases ei) simp
next
  case (Cons x l)
  obtain s e where x: "x = (s, e)" by (cases x) auto
  obtain ex intr where ei: "ei = (ex, intr)" by (cases ei) auto
  show ?case
    unfolding x ei by (simp add: Cons.IH name_add_range split: option.splits)
qed

lemma transcript_loop_names:
  "name (fst (transcript_loop c st trs ei)) = name (fst ei) \<and>
   name (snd (transcript_loop c st trs ei)) = name (snd ei)"
  by (induction trs arbitrary: ei) (simp_all add: exon_loop_names)

lemma gene_loop_names:
  "gene_loop genes chroms (ex, intr, prom) = (ex', intr', prom') \<Longrightarrow>
     name ex' = name ex \<and> name intr' = name intr \<and> name prom' = name prom"
proof (induction genes arbitrary: ex intr prom)
  case Nil
  then show ?case by simp
next
  case (Cons g genes)
  show ?case
  proof (cases "gene_chrom g \<in> set chroms")
    case False
    with Cons show ?thesis by simp
  next
    case True
    obtain e2 i2 where tl:
      "transcript_loop (gene_chrom g) (gene_strand g) (transcripts g) (ex, intr) = (e2, i2)"
      by (cases "transcript_loop (gene_chrom g) (gene_strand g) (transcripts g) (ex, intr)") auto
    have n2: "name e2 = name ex" "name i2 = name intr"
      using transcript_loop_names [of "gene_chrom g" "gene_strand g" "transcripts g" "(ex, intr)"]
      by (simp_all add: tl)
    let ?p = "if gene_strand g = ''+''
                then add_range prom (gene_chrom g) (gene_strand g) (tx_start g - 2000) (tx_start g)
                else add_range prom (gene_chrom g) (gene_strand g) (tx_end g) (tx_end g + 2000)"
    have np: "name ?p = name prom" by (simp add: name_add_range)
    from Cons.prems True have "gene_loop genes chroms (e2, i2, ?p) = (ex', intr', prom')"
      by (simp add: tl Let_def)
    from Cons.IH [OF this] show ?thesis using n2 np by simp
  qed
qed

lemma build_regions_names:
  "build_regions genes chroms = (ex, intr, prom) \<Longrightarrow>
     name ex = ''exon'' \<and> name intr = ''intron'' \<and> name prom = ''promoter''"
  unfolding build_regions_def
  using gene_loop_names [of genes chroms "RangeMatch_init ''exon''" "RangeMatch_init ''intron''"
      "RangeMatch_init ''promoter''" ex intr prom]
  by (simp add: RangeMatch_init_def)

lemma get_tag_cases:
  "get_tag rm c st p ig = None \<or> get_tag rm c st p ig = Some (name rm) \<or>
   get_tag rm c st p ig = Some (name rm @ ''-rev'')"
  unfolding get_tag_bucket_of scan_bucket_char by simp

lemma get_tag_true:
  "name rm \<noteq> [] \<Longrightarrow> str_true (get_tag rm c st p ig) \<longleftrightarrow> get_tag rm c st p ig \<noteq> None"
  using get_tag_cases [of rm c st p ig] by (auto simp: str_true_def)

lemma cigar_loop_None:
  "cigar_loop cg None = (if \<exists>x \<in> set cg. fst x = 3 then Some ''junction'' else None)"
proof (induction cg)
  case Nil
  then show ?case by simp
next
  case (Cons x cg)
  obtain op len where x: "x = (op, len)" by (cases x) auto
  show ?case unfolding x using Cons.IH by (cases "op = 3") simp_all
qed

lemma region_loop_three:
  assumes "name ex \<noteq> []" "name intr \<noteq> []" "name prom \<noteq> []"
  shows "region_loop [ex, intr, prom] c st p tg =
     (case get_tag ex c st p False of
        Some t \<Rightarrow> Some t
      | None \<Rightarrow>
          (case get_tag intr c st p False of
             Some t \<Rightarrow> Some t
           | None \<Rightarrow> get_tag prom c st p False))"
  using assms by (auto simp: Let_def get_tag_true split: option.splits)

lemma read_category_cases:
  "read_category ex intr prom rd chrom \<in>
     {''mitochondrial'', ''junction'', ''intergenic'', name ex, name ex @ ''-rev'',
      name intr, name intr @ ''-rev'', name prom, name prom @ ''-rev''}"
proof -
  let ?st = "if is_reverse rd then ''-'' else ''+''"
  consider "chrom = ''chrM''" | "chrom \<noteq> ''chrM''" "\<exists>x \<in> set (cigar rd). fst x = 3"
    | "chrom \<noteq> ''chrM''" "\<not> (\<exists>x \<in> set (cigar rd). fst x = 3)" by blast
  then show ?thesis
  proof cases
    case 1
    then show ?thesis by (simp add: read_category_def)
  next
    case 2
    then show ?thesis by (simp add: read_category_def)
  next
    case 3
    then have rc: "read_category ex intr prom rd chrom =
      (case get_tag ex chrom ?st (pos rd) False of
              Some tg \<Rightarrow> tg
            | None \<Rightarrow>
               (case get_tag intr chrom ?st (pos rd) False of
                  Some tg \<Rightarrow> tg
                | None \<Rightarrow>
                   (case get_tag prom chrom ?st (pos rd) False of
                      Some tg \<Rightarrow> tg
                    | None \<Rightarrow> ''intergenic'')))"
      by (simp add: read_category_def Let_def)
    from get_tag_cases [of ex chrom ?st "pos rd" False]
      get_tag_cases [of intr chrom ?st "pos rd" False]
      get_tag_cases [of prom chrom ?st "pos rd" False]
    show ?thesis unfolding rc by (elim disjE) simp_all
  qed
qed

lemma read_category_in:
  assumes "name ex = ''exon''" "name intr = ''intron''" "name prom = ''promoter''"
  shows "read_category ex intr prom rd chrom \<in> set categories"
proof -
  have "{''mitochondrial'', ''junction'', ''intergenic'', name ex, name ex @ ''-rev'',
      name intr, name intr @ ''-rev'', name prom, name prom @ ''-rev''} = set categories"
    unfolding assms categories_def by (simp add: insert_commute)
  with read_category_cases [of ex intr prom rd chrom] show ?thesis by simp
qed

lemma add_read_category:
  assumes r: "regions t = [ex, intr, prom]"
    and n: "name ex = ''exon''" "name intr = ''intron''" "name prom = ''promoter''"
    and m: "\<not> is_unmapped rd"
  shows "add_read t rd chrom =
     (case counts t (read_category ex intr prom rd chrom) of
        None \<Rightarrow> Inl KeyError
      | Some c \<Rightarrow> Inr (t\<lparr>counts := (counts t)(read_category ex intr prom rd chrom \<mapsto> c + 1)\<rparr>))"
proof -
  let ?st = "if is_reverse rd then ''-'' else ''+''"
  have ne: "name ex \<noteq> []" "name intr \<noteq> []" "name prom \<noteq> []" using n by simp_all
  note rl = region_loop_three [OF ne, of chrom ?st "pos rd"]
  have tr: "str_true (get_tag rm chrom ?st (pos rd) False) \<longleftrightarrow>
      get_tag rm chrom ?st (pos rd) False \<noteq> None" if "name rm \<noteq> []" for rm
    using that by (rule get_tag_true)
  show ?thesis
  proof (cases "chrom = ''chrM''")
    case True
    then have cat: "read_category ex intr prom rd chrom = ''mitochondrial''"
      by (simp add: read_category_def)
    show ?thesis
      unfolding cat using m True by (simp add: add_read_def Let_def str_true_def)
  next
    case nm: False
    show ?thesis
    proof (cases "\<exists>x \<in> set (cigar rd). fst x = 3")
      case True
      with nm have cat: "read_category ex intr prom rd chrom = ''junction''"
        by (simp add: read_category_def)
      show ?thesis
        unfolding cat using m nm True
        by (simp add: add_read_def Let_def str_true_def cigar_loop_None)
    next
      case nj: False
      let ?t3 = "region_loop (regions t) chrom ?st (pos rd) None"
      have a: "add_read t rd chrom =
        (let tag4 = (if \<not> str_true ?t3 then Some ''intergenic'' else ?t3)
         in if str_true tag4 then
              (case tag4 of
                 None \<Rightarrow> Inr t
               | Some tg \<Rightarrow>
                   (case counts t tg of
                      None \<Rightarrow> Inl KeyError
                    | Some c \<Rightarrow> Inr (t\<lparr>counts := (counts t)(tg \<mapsto> c + 1)\<rparr>)))
            else Inr t)"
        using m nm nj by (simp add: add_read_def Let_def str_true_def cigar_loop_None)
      have b: "(if \<not> str_true ?t3 then Some ''intergenic'' else ?t3)
          = Some (read_category ex intr prom rd chrom)"
        unfolding r rl read_category_def Let_def
        using nm nj tr [OF ne(1)] tr [OF ne(2)] tr [OF ne(3)]
        by (auto simp: str_true_def split: option.splits)
      have c: "read_category ex intr prom rd chrom \<noteq> []"
        using read_category_in [OF n, of rd chrom] by (auto simp: categories_def)
      show ?thesis
        unfolding a b Let_def using c by (simp add: str_true_def)
    qed
  qed
qed

lemma sum_counts_other:
  "k \<notin> set ks \<Longrightarrow>
     sum_list (map (\<lambda>x. case (m(k \<mapsto> v)) x of None \<Rightarrow> 0 | Some (n::int) \<Rightarrow> n) ks) =
     sum_list (map (\<lambda>x. case m x of None \<Rightarrow> 0 | Some n \<Rightarrow> n) ks)"
  by (induction ks) auto

lemma sum_counts_update:
  "distinct ks \<Longrightarrow> k \<in> set ks \<Longrightarrow> m k = Some c \<Longrightarrow>
     sum_list (map (\<lambda>x. case (m(k \<mapsto> c + 1)) x of None \<Rightarrow> 0 | Some (n::int) \<Rightarrow> n) ks) =
     sum_list (map (\<lambda>x. case m x of None \<Rightarrow> 0 | Some n \<Rightarrow> n) ks) + 1"
proof (induction ks)
  case Nil
  then show ?case by simp
next
  case (Cons a ks)
  show ?case
  proof (cases "a = k")
    case True
    with Cons.prems have "k \<notin> set ks" by simp
    from sum_counts_other [OF this, of m "c + 1"] True Cons.prems(3) show ?thesis by simp
  next
    case False
    with Cons show ?thesis by simp
  qed
qed

lemma distinct_categories: "distinct categories"
  by (simp add: categories_def)

lemma count_sum_unfold:
  "sum_list (map (count_of t) categories) =
     sum_list (map (\<lambda>x. case counts t x of None \<Rightarrow> 0 | Some n \<Rightarrow> n) categories)"
  by (simp add: count_of_def [abs_def])

lemma add_read_step:
  assumes r: "regions t = [ex, intr, prom]"
    and n: "name ex = ''exon''" "name intr = ''intron''" "name prom = ''promoter''"
    and k: "\<forall>k \<in> set categories. counts t k \<noteq> None"
  shows "\<exists>t'. add_read t rd chrom = Inr t' \<and> regions t' = regions t \<and>
     (\<forall>k \<in> set categories. counts t' k \<noteq> None) \<and>
     sum_list (map (count_of t') categories) =
       sum_list (map (count_of t) categories) + (if is_unmapped rd then 0 else 1)"
proof (cases "is_unmapped rd")
  case True
  with k show ?thesis by (simp add: add_read_def)
next
  case False
  let ?cat = "read_category ex intr prom rd chrom"
  have cin: "?cat \<in> set categories" by (rule read_category_in [OF n])
  with k obtain c where c: "counts t ?cat = Some c" by auto
  have a: "add_read t rd chrom = Inr (t\<lparr>counts := (counts t)(?cat \<mapsto> c + 1)\<rparr>)"
    unfolding add_read_category [OF r n False] by (simp add: c)
  have s: "sum_list (map (count_of (t\<lparr>counts := (counts t)(?cat \<mapsto> c + 1)\<rparr>)) categories) =
       sum_list (map (count_of t) categories) + 1"
    unfolding count_sum_unfold
    using sum_counts_update [of categories ?cat "counts t" c, OF distinct_categories cin c]
    by simp
  show ?thesis
    unfolding a using k s False by simp
qed

lemma add_reads_run:
  assumes r: "regions t = [ex, intr, prom]"
    and n: "name ex = ''exon''" "name intr = ''intron''" "name prom = ''promoter''"
    and k: "\<forall>k \<in> set categories. counts t k \<noteq> None"
  shows "\<exists>t'. add_reads t rds = Inr t' \<and> regions t' = regions t \<and>
     (\<forall>k \<in> set categories. counts t' k \<noteq> None) \<and>
     sum_list (map (count_of t') categories) =
       sum_list (map (count_of t) categories)
         + int (length (filter (\<lambda>x. \<not> is_unmapped (fst x)) rds))"
  using r k
proof (induction rds arbitrary: t)
  case Nil
  then show ?case by simp
next
  case (Cons x rds)
  obtain rd chrom where x: "x = (rd, chrom)" by (cases x) auto
  from add_read_step [OF Cons.prems(1) n Cons.prems(2), of rd chrom]
  obtain t1 where t1: "add_read t rd chrom = Inr t1" "regions t1 = regions t"
    "\<forall>k \<in> set categories. counts t1 k \<noteq> None"
    "sum_list (map (count_of t1) categories) =
       sum_list (map (count_of t) categories) + (if is_unmapped rd then 0 else 1)"
    by blast
  from Cons.IH [of t1] t1 Cons.prems(1)
  obtain t' where t': "add_reads t1 rds = Inr t'" "regions t' = regions t1"
    "\<forall>k \<in> set categories. counts t' k \<noteq> None"
    "sum_list (map (count_of t') categories) =
       sum_list (map (count_of t1) categories)
         + int (length (filter (\<lambda>x. \<not> is_unmapped (fst x)) rds))"
    by auto
  show ?case
    unfolding x using t1 t' by simp
qed

lemma RegionTagger_init_fields:
  assumes "build_regions genes chroms = (ex, intr, prom)"
  shows "regions (RegionTagger_init genes chroms) = [ex, intr, prom]"
    and "\<forall>k \<in> set categories. counts (RegionTagger_init genes chroms) k \<noteq> None"
    and "sum_list (map (count_of (RegionTagger_init genes chroms)) categories) = 0"
  using assms by (simp_all add: RegionTagger_init_def categories_def count_of_def)

text \<open>
  Claim C1. Take the tagger that the constructor builds from any gene model, after any
  run of \<open>add_read\<close> calls. The run raises nothing, and the nine counters sum to the
  number of mapped reads in it. A further unmapped read changes nothing. A further mapped
  read adds one to the counter of its category and leaves every other counter as it is;
  the category is one of the nine, chosen by the priority of the claim: \<open>chrM\<close> gives
  mitochondrial; else an operation 3 in the cigar gives junction; else the first answer
  other than \<open>None\<close> of the exon, intron and promoter index, asked with the read's
  strand at its start position; else intergenic.
\<close>

theorem add_read_one_counter:
  "case build_regions genes chroms of
     (exons, introns, promoters) \<Rightarrow>
       (\<exists>t. add_reads (RegionTagger_init genes chroms) rds = Inr t \<and>
          sum_list (map (count_of t) categories)
            = int (length (filter (\<lambda>x. \<not> is_unmapped (fst x)) rds)) \<and>
          (is_unmapped rd \<longrightarrow> add_read t rd chrom = Inr t) \<and>
          (\<not> is_unmapped rd \<longrightarrow>
             read_category exons introns promoters rd chrom \<in> set categories \<and>
             counts t (read_category exons introns promoters rd chrom)
               = Some (count_of t (read_category exons introns promoters rd chrom)) \<and>
             add_read t rd chrom =
               Inr (t\<lparr>counts := (counts t)
                      (read_category exons introns promoters rd chrom \<mapsto>
                         count_of t (read_category exons introns promoters rd chrom) + 1)\<rparr>)))"
proof -
  obtain ex intr prom where b: "build_regions genes chroms = (ex, intr, prom)"
    by (cases "build_regions genes chroms") auto
  note n = build_regions_names [OF b, THEN conjunct1]
    build_regions_names [OF b, THEN conjunct2, THEN conjunct1]
    build_regions_names [OF b, THEN conjunct2, THEN conjunct2]
  note f = RegionTagger_init_fields [OF b]
  from add_reads_run [OF f(1) n f(2), of rds]
  obtain t where t: "add_reads (RegionTagger_init genes chroms) rds = Inr t"
    "regions t = [ex, intr, prom]" "\<forall>k \<in> set categories. counts t k \<noteq> None"
    "sum_list (map (count_of t) categories)
       = int (length (filter (\<lambda>x. \<not> is_unmapped (fst x)) rds))"
    unfolding f(1) f(3) by auto
  let ?cat = "read_category ex intr prom rd chrom"
  have cin: "?cat \<in> set categories" by (rule read_category_in [OF n])
  with t(3) obtain c where c: "counts t ?cat = Some c" by auto
  then have co: "count_of t ?cat = c" by (simp add: count_of_def)
  have u: "is_unmapped rd \<longrightarrow> add_read t rd chrom = Inr t"
    by (simp add: add_read_def)
  have m: "\<not> is_unmapped rd \<longrightarrow>
      add_read t rd chrom = Inr (t\<lparr>counts := (counts t)(?cat \<mapsto> count_of t ?cat + 1)\<rparr>)"
  proof
    assume "\<not> is_unmapped rd"
    from add_read_category [OF t(2) n this, of chrom] show
      "add_read t rd chrom = Inr (t\<lparr>counts := (counts t)(?cat \<mapsto> count_of t ?cat + 1)\<rparr>)"
      by (simp add: c co)
  qed
  show ?thesis
    unfolding b using t(1) t(4) u m cin c co by auto
qed

theorem add_read_one_counter_witness:
  "\<exists>t. add_reads
         (RegionTagger_init
            [\<lparr>gene_chrom = ''chr1'', gene_strand = ''+'', tx_start = 5000, tx_end = 9000,
              transcripts = [\<lparr>exon_starts = [5000, 7000], exon_ends = [6000, 9000]\<rparr>]\<rparr>]
            [''chr1''])
         [(\<lparr>qname = ''r1'', flag = 0, is_unmapped = False, is_reverse = False, rname = ''chr1'',
            pos = 5500, mapq = 30, cigar = [(0, 4)], seq = ''ACGT'', qual = ''IIII'', tags = []\<rparr>,
           ''chr1''),
          (\<lparr>qname = ''r2'', flag = 4, is_unmapped = True, is_reverse = False, rname = '''',
            pos = 0, mapq = 0, cigar = [], seq = ''ACGT'', qual = ''IIII'', tags = []\<rparr>,
           '''')] = Inr t \<and>
      sum_list (map (count_of t) categories) = 1 \<and>
      add_read t
        \<lparr>qname = ''r2'', flag = 4, is_unmapped = True, is_reverse = False, rname = '''',
         pos = 0, mapq = 0, cigar = [], seq = ''ACGT'', qual = ''IIII'', tags = []\<rparr> '''' = Inr t \<and>
      add_read t
        \<lparr>qname = ''r3'', flag = 16, is_unmapped = False, is_reverse = True, rname = ''chr1'',
         pos = 6500, mapq = 30, cigar = [(0, 4)], seq = ''ACGT'', qual = ''IIII'', tags = []\<rparr> ''chr1''
        = Inr (t\<lparr>counts := (counts t)(''intron-rev'' \<mapsto> count_of t ''intron-rev'' + 1)\<rparr>)"
proof -
  let ?G = "[\<lparr>gene_chrom = ''chr1'', gene_strand = ''+'', tx_start = 5000, tx_end = 9000,
              transcripts = [\<lparr>exon_starts = [5000, 7000], exon_ends = [6000, 9000]\<rparr>]\<rparr>]"
  let ?R1 = "\<lparr>qname = ''r1'', flag = 0, is_unmapped = False, is_reverse = False, rname = ''chr1'',
            pos = 5500, mapq = 30, cigar = [(0, 4)], seq = ''ACGT'', qual = ''IIII'', tags = []\<rparr>"
  let ?R2 = "\<lparr>qname = ''r2'', flag = 4, is_unmapped = True, is_reverse = False, rname = '''',
            pos = 0, mapq = 0, cigar = [], seq = ''ACGT'', qual = ''IIII'', tags = []\<rparr>"
  let ?R3 = "\<lparr>qname = ''r3'', flag = 16, is_unmapped = False, is_reverse = True, rname = ''chr1'',
         pos = 6500, mapq = 30, cigar = [(0, 4)], seq = ''ACGT'', qual = ''IIII'', tags = []\<rparr>"
  let ?EX = "add_range (add_range (RangeMatch_init ''exon'') ''chr1'' ''+'' 5000 6000)
               ''chr1'' ''+'' 7000 9000"
  let ?IN = "add_range (RangeMatch_init ''intron'') ''chr1'' ''+'' 6000 7000"
  let ?PR = "add_range (RangeMatch_init ''promoter'') ''chr1'' ''+'' 3000 5000"
  have b: "build_regions ?G [''chr1''] = (?EX, ?IN, ?PR)"
    by (simp add: build_regions_def Let_def int_true_def)
  have g1: "get_tag ?EX ''chr1'' ''-'' 6500 False = None"
    by (simp add: get_tag_bucket_of bucket_of_add_range bucket_of_init in_span_def)
  have g2: "get_tag ?IN ''chr1'' ''-'' 6500 False = Some ''intron-rev''"
    by (simp add: get_tag_bucket_of bucket_of_add_range bucket_of_init in_span_def
        name_add_range) (simp add: RangeMatch_init_def)
  have c: "read_category ?EX ?IN ?PR ?R3 ''chr1'' = ''intron-rev''"
    by (simp add: read_category_def Let_def g1 g2)
  from add_read_one_counter [of ?G "[''chr1'']" "[(?R1, ''chr1''), (?R2, '''')]" ?R2 "''''"]
    add_read_one_counter [of ?G "[''chr1'']" "[(?R1, ''chr1''), (?R2, '''')]" ?R3 "''chr1''"]
  show ?thesis
    unfolding b by (auto simp: c)
qed

section \<open>Facts about bam_stats\<close>

lemma flag_rows_only_raw_flags:
  "row \<in> set (flag_rows fc tot) \<Longrightarrow> map_of fc (fst row) \<noteq> None"
  by (auto simp: flag_rows_def Let_def split: if_splits)

text \<open>
  Claim C6 expects, for three reads with distinct names and the flags 0x1, 0x1|0x4 and
  0x10, the rows 0x1 (count 2), 0x4 (count 1) and 0x10 (count 1). The code keeps a
  described bit only when the bit is itself a raw flag value of some read
  (\<open>if flag in flag_counts\<close>, lemma \<open>flag_rows_only_raw_flags\<close>), so 0x4, which occurs
  only inside 0x5, gets no row: the report has the rows 0x1 (count 2, 200/3 percent) and
  0x10 (count 1, 100/3 percent) and nothing else.
\<close>

theorem flag_rows_scenario:
  "bam_stats calc None references []
     [\<lparr>qname = ''r1'', flag = 0x1, is_unmapped = False, is_reverse = False, rname = ''chr1'',
       pos = 100, mapq = 30, cigar = [(0, 4)], seq = ''ACGT'', qual = ''IIII'', tags = []\<rparr>,
      \<lparr>qname = ''r2'', flag = 0x5, is_unmapped = True, is_reverse = False, rname = '''',
       pos = 0, mapq = 0, cigar = [], seq = ''ACGT'', qual = ''IIII'', tags = []\<rparr>,
      \<lparr>qname = ''r3'', flag = 0x10, is_unmapped = False, is_reverse = True, rname = ''chr1'',
       pos = 200, mapq = 30, cigar = [(0, 4)], seq = ''ACGT'', qual = ''IIII'', tags = []\<rparr>]
   = Inr (3, 2, 1,
       [(0x1, ''Multiple fragments'', 2, 200 / 3),
        (0x10, ''Reverse complimented'', 1, 100 / 3)])"
  by (simp add: bam_stats_def stats_step_def Let_def flag_rows_def flag_descriptions_def)

end
